theory Spec2Isabelle
  imports Complex_Main "HOL-Library.Word"
begin

section \<open>Numbers, bytes and buffers\<close>

text \<open>
  The audio converters of \<^verbatim>\<open>src/audio-converter.ts\<close> work on Node.js buffers: a
  buffer is a sequence of bytes, \<^verbatim>\<open>buffer.length\<close> is its number of bytes.

  A JavaScript number is an IEEE 754 binary64 value.  It is modelled by the real number
  it denotes, or by one of the three non-finite values.  \<open>binary64 x\<close> is the double
  nearest to the real \<open>x\<close>: 53 significant bits, a tie to the even significand, and
  multiples of \<open>2 ^ - 1074\<close> below \<open>2 ^ - 1022\<close>.  Every arithmetic operation of the
  program whose exact result need not be a double is followed by this rounding.  The sum,
  difference and product of integers below \<open>2 ^ 53\<close>, and the division or multiplication
  of a buffer length or a rate by 2 or 4, are exact in doubles and are written without it.
  Allocation limits of the runtime are not modelled.
\<close>

type_synonym byte = "8 word"
type_synonym buffer = "byte list"

datatype error = RangeError

datatype number = NaN | Infinity | NegInfinity | Num real

text \<open>Rounding to the nearest integer, a tie to the even one.\<close>

definition round_half_even :: "real \<Rightarrow> int" where
  "round_half_even r =
     (let f = \<lfloor>r\<rfloor>; d = r - of_int f
      in if d < 1 / 2 then f else if 1 / 2 < d then f + 1 else if even f then f else f + 1)"

text \<open>
  The exponent of the binade of a nonzero \<open>x\<close>, not below that of the subnormal numbers;
  the doubles of the binade are the multiples of 2 to the power of the exponent minus 52.
\<close>

definition binary64_exponent :: "real \<Rightarrow> int" where
  "binary64_exponent x = max \<lfloor>log 2 \<bar>x\<bar>\<rfloor> (- 1022)"

definition binary64 :: "real \<Rightarrow> real" where
  "binary64 x =
     (if x = 0 then 0
      else (let u = 2 powr (of_int (binary64_exponent x) - 52)
            in sgn x * of_int (round_half_even (\<bar>x\<bar> / u)) * u))"

text \<open>A rounded result that does not fit the exponent range of a double is an infinity.\<close>

definition js_finite :: "real \<Rightarrow> number" where
  "js_finite q = (if \<bar>q\<bar> < 2 ^ 1024 then Num q else if 0 < q then Infinity else NegInfinity)"

text \<open>\<^verbatim>\<open>a / b\<close> on two finite numbers.\<close>

definition js_divide :: "real \<Rightarrow> real \<Rightarrow> number" where
  "js_divide a b =
     (if b \<noteq> 0 then js_finite (binary64 (a / b))
      else if a = 0 then NaN
      else if 0 < a then Infinity else NegInfinity)"

text \<open>\<^verbatim>\<open>x * b\<close> for a finite \<open>b\<close>.\<close>

fun js_times :: "number \<Rightarrow> real \<Rightarrow> number" where
  "js_times (Num a) b = js_finite (binary64 (a * b))"
| "js_times NaN b = NaN"
| "js_times Infinity b = (if b = 0 then NaN else if 0 < b then Infinity else NegInfinity)"
| "js_times NegInfinity b = (if b = 0 then NaN else if 0 < b then NegInfinity else Infinity)"

text \<open>\<^verbatim>\<open>x < b\<close> and \<^verbatim>\<open>x >= b\<close> for a finite \<open>b\<close>: every comparison with NaN is false.\<close>

fun js_less :: "number \<Rightarrow> real \<Rightarrow> bool" where
  "js_less (Num a) b = (a < b)"
| "js_less NaN b = False"
| "js_less Infinity b = False"
| "js_less NegInfinity b = True"

fun js_ge :: "number \<Rightarrow> real \<Rightarrow> bool" where
  "js_ge (Num a) b = (b \<le> a)"
| "js_ge NaN b = False"
| "js_ge Infinity b = True"
| "js_ge NegInfinity b = False"

text \<open>
  \<^verbatim>\<open>Math.round\<close> gives the integer nearest to its argument, a tie towards plus
  infinity; it is exact on the double it is given.
\<close>

definition Math_round :: "real \<Rightarrow> int" where
  "Math_round x = \<lfloor>x + 1 / 2\<rfloor>"

text \<open>
  The value of two bytes read as a signed 16-bit little-endian integer: Node computes
  \<^verbatim>\<open>val = first + last * 2 ** 8\<close> from the byte at the offset and
  the next one, and extends the sign bit.
\<close>

definition int16le :: "byte \<Rightarrow> byte \<Rightarrow> int" where
  "int16le b0 b1 =
     (let val = uint b0 + uint b1 * 2 ^ 8
      in if 2 ^ 15 \<le> val then val - 2 ^ 16 else val)"

text \<open>
  \<^verbatim>\<open>buffer.readInt16LE(offset)\<close> raises a RangeError unless both bytes lie inside the
  buffer.  The offsets of this program are integers (a loop index times a constant).
\<close>

definition readInt16LE :: "buffer \<Rightarrow> int \<Rightarrow> error + int" where
  "readInt16LE buf offset =
     (if 0 \<le> offset \<and> offset + 1 < int (length buf)
      then Inr (int16le (buf ! nat offset) (buf ! nat (offset + 1)))
      else Inl RangeError)"

text \<open>
  \<^verbatim>\<open>buffer.writeInt16LE(value, offset)\<close> raises a RangeError when the value is not a
  signed 16-bit integer or when the two bytes do not lie inside the buffer; otherwise it
  stores the low byte at \<open>offset\<close> and the high byte after it.
\<close>

definition writeInt16LE :: "buffer \<Rightarrow> int \<Rightarrow> int \<Rightarrow> error + buffer" where
  "writeInt16LE buf val offset =
     (if val < - (2 ^ 15) \<or> 2 ^ 15 - 1 < val then Inl RangeError
      else if 0 \<le> offset \<and> offset + 1 < int (length buf)
      then Inr (buf[nat offset := word_of_int val,
                    nat (offset + 1) := word_of_int (val div 2 ^ 8)])
      else Inl RangeError)"

text \<open>\<^verbatim>\<open>Buffer.alloc(size)\<close>: a buffer of \<open>size\<close> zero bytes.\<close>

definition Buffer_alloc :: "nat \<Rightarrow> buffer" where
  "Buffer_alloc sz = replicate sz 0"

section \<open>OpusToPCMConverter: 48 kHz stereo to 16 kHz mono\<close>

text \<open>Line 74 of \<^verbatim>\<open>downsampleAndMono\<close>: \<^verbatim>\<open>Math.floor((left + right) / 2)\<close>.\<close>

definition mono_mix :: "int \<Rightarrow> int \<Rightarrow> int" where
  "mono_mix left right = \<lfloor>(of_int (left + right) :: real) / 2\<rfloor>"

text \<open>
  The loop of \<^verbatim>\<open>downsampleAndMono\<close>, \<^verbatim>\<open>for (let i = 0; i < outputSamples; i++)\<close>,
  with the output buffer it fills passed along.
\<close>

function downsample_loop :: "buffer \<Rightarrow> nat \<Rightarrow> nat \<Rightarrow> buffer \<Rightarrow> error + buffer" where
  "downsample_loop buffer outputSamples i output =
     (if i < outputSamples then
        (let sourceIndex = int i * 3;
             sourceOffset = sourceIndex * 4
         in case readInt16LE buffer sourceOffset of
              Inl e \<Rightarrow> Inl e
            | Inr left \<Rightarrow>
                (case readInt16LE buffer (sourceOffset + 2) of
                   Inl e \<Rightarrow> Inl e
                 | Inr right \<Rightarrow>
                     (case writeInt16LE output (mono_mix left right) (int i * 2) of
                        Inl e \<Rightarrow> Inl e
                      | Inr output' \<Rightarrow> downsample_loop buffer outputSamples (i + 1) output')))
      else Inr output)"
  by pat_completeness auto
termination
  by (relation "measure (\<lambda>(buffer, outputSamples, i, output). outputSamples - i)") auto

declare downsample_loop.simps [simp del]

definition downsampleAndMono :: "buffer \<Rightarrow> error + buffer" where
  "downsampleAndMono buffer =
     (let samplesPerChannel = (of_nat (length buffer) :: real) / 4;
          outputSamples = nat \<lfloor>samplesPerChannel / 3\<rfloor>;
          output = Buffer_alloc (outputSamples * 2)
      in downsample_loop buffer outputSamples 0 output)"

text \<open>
  The mono value \<^verbatim>\<open>downsampleAndMono\<close> computes for output index \<open>j\<close>: the mix of the
  left and right samples of the stereo frame at source index \<open>3 * j\<close>, which starts at
  byte \<open>12 * j\<close>.
\<close>

definition frame_mono :: "buffer \<Rightarrow> nat \<Rightarrow> int" where
  "frame_mono buffer j =
     mono_mix (int16le (buffer ! (12 * j)) (buffer ! (12 * j + 1)))
              (int16le (buffer ! (12 * j + 2)) (buffer ! (12 * j + 3)))"

section \<open>PCMToOpusConverter and resamplePCM: mono to 48 kHz stereo\<close>

text \<open>
  \<^verbatim>\<open>PCMToOpusConverter.resampleAndStereo\<close> (\<^verbatim>\<open>audio-converter.ts\<close>) and
  \<^verbatim>\<open>resamplePCM\<close> (\<^verbatim>\<open>index.ts\<close>) run the same loop; they differ in where the
  ratio comes from.  The loop body is entered only for a positive ratio, since
  \<open>outputSamples\<close> is \<open>0\<close> otherwise.  Where \<^verbatim>\<open>i / ratio\<close> exceeds the exponent range
  the code computes with Infinity and NaN and the model with a real above every buffer
  length: both fail the two comparisons and take the sample \<open>0\<close>.
\<close>

function resample_loop ::
  "buffer \<Rightarrow> real \<Rightarrow> real \<Rightarrow> nat \<Rightarrow> nat \<Rightarrow> buffer \<Rightarrow> error + buffer" where
  "resample_loop input inputSamples ratio outputSamples i output =
     (if i < outputSamples then
        (let inputPos = binary64 (of_nat i / ratio);
             inputIndex = \<lfloor>inputPos\<rfloor>;
             frac = binary64 (inputPos - of_int inputIndex)
         in case (if of_int (inputIndex + 1) < inputSamples then
                    (case readInt16LE input (inputIndex * 2) of
                       Inl e \<Rightarrow> Inl e
                     | Inr s1 \<Rightarrow>
                         (case readInt16LE input ((inputIndex + 1) * 2) of
                            Inl e \<Rightarrow> Inl e
                          | Inr s2 \<Rightarrow>
                              Inr (Math_round
                                    (binary64 (of_int s1 + binary64 (frac * of_int (s2 - s1)))))))
                  else if of_int inputIndex < inputSamples then readInt16LE input (inputIndex * 2)
                  else Inr 0) of
              Inl e \<Rightarrow> Inl e
            | Inr sample \<Rightarrow>
                (let sample' = max (- 32768) (min 32767 sample);
                     outputOffset = int i * 4
                 in case writeInt16LE output sample' outputOffset of
                      Inl e \<Rightarrow> Inl e
                    | Inr output' \<Rightarrow>
                        (case writeInt16LE output' sample' (outputOffset + 2) of
                           Inl e \<Rightarrow> Inl e
                         | Inr output'' \<Rightarrow>
                             resample_loop input inputSamples ratio outputSamples (i + 1) output'')))
      else Inr output)"
  by pat_completeness auto
termination
  by (relation "measure (\<lambda>(input, inputSamples, ratio, outputSamples, i, output). outputSamples - i)")
    auto

declare resample_loop.simps [simp del]

text \<open>
  The part both functions share after the ratio is known: \<open>product\<close> is
  \<^verbatim>\<open>inputSamples * ratio\<close>.  \<^verbatim>\<open>Buffer.alloc\<close> raises a RangeError for a size that is
  NaN, infinite or negative.
\<close>

definition resample_with :: "number \<Rightarrow> buffer \<Rightarrow> error + buffer" where
  "resample_with r input =
     (let inputSamples = (of_nat (length input) :: real) / 2
      in case r of
           Num ratio \<Rightarrow>
             (case js_times (Num ratio) inputSamples of
                Num product \<Rightarrow>
                  (let outputSamples = \<lfloor>product\<rfloor>
                   in if outputSamples < 0 then Inl RangeError
                      else resample_loop input inputSamples ratio (nat outputSamples) 0
                             (Buffer_alloc (nat outputSamples * 4)))
              | _ \<Rightarrow> Inl RangeError)
         | _ \<Rightarrow> Inl RangeError)"

record PCMToOpusConverter =
  resampleRatio :: number

text \<open>The constructor: \<^verbatim>\<open>inputSampleRate\<close> defaults to 16000.\<close>

definition PCMToOpusConverter_new :: "real option \<Rightarrow> PCMToOpusConverter" where
  "PCMToOpusConverter_new inputSampleRate =
     \<lparr>resampleRatio = js_divide 48000 (case inputSampleRate of None \<Rightarrow> 16000 | Some r \<Rightarrow> r)\<rparr>"

definition resampleAndStereo :: "PCMToOpusConverter \<Rightarrow> buffer \<Rightarrow> error + buffer" where
  "resampleAndStereo this buffer = resample_with (resampleRatio this) buffer"

definition resamplePCM :: "buffer \<Rightarrow> real \<Rightarrow> real \<Rightarrow> error + buffer" where
  "resamplePCM input inputRate outputRate = resample_with (js_divide outputRate inputRate) input"

text \<open>
  The sample computed in one round of the loop, before it is clamped: the value of the
  variable \<^verbatim>\<open>sample\<close> after the \<^verbatim>\<open>if\<close> statement, or the exception of a read.
\<close>

definition interpolate_at :: "buffer \<Rightarrow> real \<Rightarrow> real \<Rightarrow> nat \<Rightarrow> error + int" where
  "interpolate_at input inputSamples ratio i =
     (let inputPos = binary64 (of_nat i / ratio);
          inputIndex = \<lfloor>inputPos\<rfloor>;
          frac = binary64 (inputPos - of_int inputIndex)
      in if of_int (inputIndex + 1) < inputSamples then
           (case readInt16LE input (inputIndex * 2) of
              Inl e \<Rightarrow> Inl e
            | Inr s1 \<Rightarrow>
                (case readInt16LE input ((inputIndex + 1) * 2) of
                   Inl e \<Rightarrow> Inl e
                 | Inr s2 \<Rightarrow>
                     Inr (Math_round (binary64 (of_int s1 + binary64 (frac * of_int (s2 - s1)))))))
         else if of_int inputIndex < inputSamples then readInt16LE input (inputIndex * 2)
         else Inr 0)"

text \<open>
  The upsampler as the specification words it, on the samples of a mono buffer and in the
  arithmetic of doubles: \<open>pcm_sample buf j\<close> is sample \<open>j\<close>, and
  \<open>upsample_spec input ratio i\<close> is the output sample at index \<open>i\<close>: with
  \<open>inputPos = i / ratio\<close>, \<open>inputIndex = floor(inputPos)\<close> and
  \<open>frac = inputPos - inputIndex\<close>, the rounded interpolation
  \<open>round(s1 + frac * (s2 - s1))\<close> if \<open>inputIndex + 1 < inputSamples\<close>, else \<open>s1\<close> if
  \<open>inputIndex < inputSamples\<close>, else \<open>0\<close>, clamped to the signed 16-bit range.
\<close>

definition pcm_sample :: "buffer \<Rightarrow> nat \<Rightarrow> int" where
  "pcm_sample buf j = int16le (buf ! (2 * j)) (buf ! (2 * j + 1))"

definition upsample_spec :: "buffer \<Rightarrow> real \<Rightarrow> nat \<Rightarrow> int" where
  "upsample_spec input ratio i =
     (let inputSamples = int (length input div 2);
          inputPos = binary64 (of_nat i / ratio);
          inputIndex = \<lfloor>inputPos\<rfloor>;
          frac = binary64 (inputPos - of_int inputIndex);
          s1 = pcm_sample input (nat inputIndex);
          s2 = pcm_sample input (nat inputIndex + 1);
          v = (if inputIndex + 1 < inputSamples
               then round (binary64 (of_int s1 + binary64 (frac * (of_int s2 - of_int s1))))
               else if inputIndex < inputSamples then s1
               else 0)
      in max (- 32768) (min 32767 v))"

section \<open>VADDetector\<close>

datatype event = SpeechStart | SpeechEnd

record VADDetector =
  silenceThreshold :: real
  silenceDurationMs :: real
  sampleRate :: real
  consecutiveSilence :: nat
  isSpeaking :: bool

text \<open>The constructor, with the defaults of the three options.\<close>

definition VADDetector_new :: "real option \<Rightarrow> real option \<Rightarrow> real option \<Rightarrow> VADDetector" where
  "VADDetector_new threshold_opt duration_opt rate_opt =
     \<lparr>silenceThreshold = (case threshold_opt of None \<Rightarrow> 500 | Some t \<Rightarrow> t),
      silenceDurationMs = (case duration_opt of None \<Rightarrow> 1500 | Some d \<Rightarrow> d),
      sampleRate = (case rate_opt of None \<Rightarrow> 16000 | Some r \<Rightarrow> r),
      consecutiveSilence = 0,
      isSpeaking = False\<rparr>"

text \<open>
  The loop of \<^verbatim>\<open>detectSilence\<close>: \<open>amp_sum\<close> is the variable \<^verbatim>\<open>sum\<close>, and \<open>samples\<close> is
  \<^verbatim>\<open>buffer.length / 2\<close>, which is not an integer for a buffer of odd length.
\<close>

function detectSilence_loop :: "buffer \<Rightarrow> real \<Rightarrow> nat \<Rightarrow> int \<Rightarrow> error + int" where
  "detectSilence_loop buffer samples i amp_sum =
     (if of_nat i < samples then
        (case readInt16LE buffer (int i * 2) of
           Inl e \<Rightarrow> Inl e
         | Inr sample \<Rightarrow> detectSilence_loop buffer samples (i + 1) (amp_sum + \<bar>sample\<bar>))
      else Inr amp_sum)"
  by pat_completeness auto
termination
proof (relation "measure (\<lambda>(buffer, samples, i, amp_sum). nat \<lceil>samples\<rceil> - i)")
  show "wf (measure (\<lambda>(buffer, samples, i, amp_sum). nat \<lceil>samples\<rceil> - i))" by simp
next
  fix buffer :: buffer and samples :: real and i :: nat and amp_sum x2 :: int
  assume "of_nat i < samples"
  then have "int i < \<lceil>samples\<rceil>" by (simp add: less_ceiling_iff)
  then show "((buffer, samples, i + 1, amp_sum + \<bar>x2\<bar>), (buffer, samples, i, amp_sum))
       \<in> measure (\<lambda>(buffer, samples, i, amp_sum). nat \<lceil>samples\<rceil> - i)"
    by simp
qed

declare detectSilence_loop.simps [simp del]

text \<open>The value of the local \<^verbatim>\<open>avgAmplitude\<close> of \<^verbatim>\<open>detectSilence\<close>.\<close>

definition avgAmplitude :: "buffer \<Rightarrow> error + number" where
  "avgAmplitude buffer =
     (let samples = (of_nat (length buffer) :: real) / 2
      in case detectSilence_loop buffer samples 0 0 of
           Inl e \<Rightarrow> Inl e
         | Inr amp_sum \<Rightarrow> Inr (js_divide (of_int amp_sum) samples))"

definition detectSilence :: "VADDetector \<Rightarrow> buffer \<Rightarrow> error + bool" where
  "detectSilence this buffer =
     (case avgAmplitude buffer of
        Inl e \<Rightarrow> Inl e
      | Inr avg \<Rightarrow> Inr (js_less avg (silenceThreshold this)))"

text \<open>
  \<^verbatim>\<open>_transform\<close>: the result is the detector after the call, the events emitted and the
  arguments of the calls of \<^verbatim>\<open>this.push\<close>, in order.  An exception of
  \<^verbatim>\<open>detectSilence\<close> leaves \<^verbatim>\<open>_transform\<close> before anything is changed, emitted or
  pushed.  The counter and its product with the chunk length are integers.
\<close>

definition VADDetector_transform ::
  "VADDetector \<Rightarrow> buffer \<Rightarrow> error + (VADDetector \<times> event list \<times> buffer list)" where
  "VADDetector_transform this chunk =
     (case detectSilence this chunk of
        Inl e \<Rightarrow> Inl e
      | Inr isSilent \<Rightarrow>
          (if isSilent then
             (let this1 = this\<lparr>consecutiveSilence := consecutiveSilence this + 1\<rparr>;
                  silenceDuration =
                    js_divide (of_nat (consecutiveSilence this1 * length chunk)) (sampleRate this1 * 2)
              in if js_ge (js_times silenceDuration 1000) (silenceDurationMs this1) \<and> isSpeaking this1
                 then Inr (this1\<lparr>isSpeaking := False\<rparr>, [SpeechEnd], [chunk])
                 else Inr (this1, [], [chunk]))
           else
             (if \<not> isSpeaking this
              then Inr (this\<lparr>isSpeaking := True, consecutiveSilence := 0\<rparr>, [SpeechStart], [chunk])
              else Inr (this\<lparr>consecutiveSilence := 0\<rparr>, [], [chunk]))))"

text \<open>\<^verbatim>\<open>reset()\<close> assigns two fields and emits nothing.\<close>

definition reset :: "VADDetector \<Rightarrow> VADDetector \<times> event list" where
  "reset this = (this\<lparr>consecutiveSilence := 0, isSpeaking := False\<rparr>, [])"

text \<open>
  The stream hands the written chunks to \<^verbatim>\<open>_transform\<close> one at a time, in the order
  they were written.  \<open>feed\<close> is that driver: it returns the detector, the events emitted
  and the chunks pushed so far, and the exception that stopped it, if one did.
\<close>

fun feed ::
  "VADDetector \<Rightarrow> buffer list \<Rightarrow> VADDetector \<times> event list \<times> buffer list \<times> error option" where
  "feed this [] = (this, [], [], None)"
| "feed this (chunk # rest) =
     (case VADDetector_transform this chunk of
        Inl e \<Rightarrow> (this, [], [], Some e)
      | Inr (this1, evs, pushed) \<Rightarrow>
          (case feed this1 rest of
             (this2, evs2, pushed2, r) \<Rightarrow> (this2, evs @ evs2, pushed @ pushed2, r)))"

text \<open>
  The readable side of a Node.js stream in byte mode hands nothing to the consumer for a
  push of zero bytes: \<open>delivered\<close> is what the consumer receives for a list of pushes.
\<close>

definition delivered :: "buffer list \<Rightarrow> buffer list" where
  "delivered pushed = filter (\<lambda>chunk. chunk \<noteq> []) pushed"

section \<open>Notions used to state the properties of the detector\<close>

text \<open>The sum of the absolute sample values of a buffer, the final \<^verbatim>\<open>sum\<close> of \<^verbatim>\<open>detectSilence\<close>.\<close>

definition abs_total :: "buffer \<Rightarrow> int" where
  "abs_total buffer =
     (\<Sum>j = 0..<length buffer div 2. \<bar>int16le (buffer ! (2 * j)) (buffer ! (2 * j + 1))\<bar>)"

text \<open>A chunk the detector classifies as silent.\<close>

definition silent_chunk :: "VADDetector \<Rightarrow> buffer \<Rightarrow> bool" where
  "silent_chunk this chunk = (detectSilence this chunk = Inr True)"

text \<open>
  The estimate of \<^verbatim>\<open>_transform\<close> in milliseconds, \<^verbatim>\<open>silenceDuration * 1000\<close>, for the
  counter value \<open>k\<close> the increment has produced and a chunk of \<open>len\<close> bytes; the first
  conjunct of the test, \<^verbatim>\<open>silenceDuration * 1000 >= this.silenceDurationMs\<close>.
\<close>

definition estimate_ms :: "VADDetector \<Rightarrow> nat \<Rightarrow> nat \<Rightarrow> number" where
  "estimate_ms this k len = js_times (js_divide (of_nat (k * len)) (sampleRate this * 2)) 1000"

definition estimate_reached :: "VADDetector \<Rightarrow> nat \<Rightarrow> buffer \<Rightarrow> bool" where
  "estimate_reached this k chunk = js_ge (estimate_ms this k (length chunk)) (silenceDurationMs this)"



text \<open>
  A sequence of events alternates when a speech-start occurs only while the detector is
  not speaking and a speech-end only while it is; \<open>speaking_after\<close> is the state the
  events leave.
\<close>

fun alternates :: "bool \<Rightarrow> event list \<Rightarrow> bool" where
  "alternates speaking [] = True"
| "alternates speaking (SpeechStart # es) = (\<not> speaking \<and> alternates True es)"
| "alternates speaking (SpeechEnd # es) = (speaking \<and> alternates False es)"

definition speaking_after :: "bool \<Rightarrow> event list \<Rightarrow> bool" where
  "speaking_after speaking es = (if es = [] then speaking else last es = SpeechStart)"

section \<open>The session buffers of the plugin\<close>

text \<open>
  \<^verbatim>\<open>index.ts\<close> keeps one \<^verbatim>\<open>AudioBufferState\<close> for each key
  \<^verbatim>\<open>`${guildId}-${userId}`\<close> in the map \<^verbatim>\<open>audioBuffers\<close>.  The plugin context
  \<^verbatim>\<open>ctx\<close> is null until \<^verbatim>\<open>init\<close> has run; of the context only the answer of
  \<^verbatim>\<open>getSTT()\<close> matters here, a provider or null.  Times are milliseconds.
\<close>

record AudioBufferState =
  chunks :: "buffer list"
  startTime :: nat
  lastChunkTime :: nat
  silenceCount :: nat

record transcribe_options =
  opt_format :: string
  opt_sampleRate :: nat
  opt_language :: string

record plugin_context =
  getSTT :: bool

record plugin_state =
  ctx :: "plugin_context option"
  audioBuffers :: "string \<rightharpoonup> AudioBufferState"

definition bufferKey_of :: "string \<Rightarrow> string \<Rightarrow> string" where
  "bufferKey_of guildId userId = guildId @ ''-'' @ userId"

text \<open>
  \<^verbatim>\<open>startListening\<close>, when a user starts speaking: a fresh entry is stored under the
  key, with two readings of the clock.
\<close>

definition start_buffer ::
  "plugin_state \<Rightarrow> string \<Rightarrow> string \<Rightarrow> nat \<Rightarrow> nat \<Rightarrow> plugin_state" where
  "start_buffer st guildId userId now now' =
     st\<lparr>audioBuffers := (audioBuffers st)(bufferKey_of guildId userId \<mapsto>
          \<lparr>chunks = [], startTime = now, lastChunkTime = now', silenceCount = 0\<rparr>)\<rparr>"

text \<open>The handler of the detector's \<^verbatim>\<open>data\<close> event: the chunk is appended, if the entry exists.\<close>

definition on_vad_data :: "plugin_state \<Rightarrow> string \<Rightarrow> string \<Rightarrow> nat \<Rightarrow> buffer \<Rightarrow> plugin_state" where
  "on_vad_data st guildId userId now chunk =
     (case audioBuffers st (bufferKey_of guildId userId) of
        None \<Rightarrow> st
      | Some buffer \<Rightarrow>
          st\<lparr>audioBuffers := (audioBuffers st)(bufferKey_of guildId userId \<mapsto>
               buffer\<lparr>chunks := chunks buffer @ [chunk], lastChunkTime := now\<rparr>)\<rparr>)"

text \<open>
  \<^verbatim>\<open>transcribeUserSpeech\<close>, the handler of \<^verbatim>\<open>speech-end\<close>, up to its call of
  \<^verbatim>\<open>stt.transcribe\<close>: the result is the plugin state and the call made, if any, as the
  audio and the options passed.  What the plugin does with the transcript is not
  modelled.
\<close>

definition transcribeUserSpeech ::
  "plugin_state \<Rightarrow> string \<Rightarrow> string \<Rightarrow> plugin_state \<times> (buffer \<times> transcribe_options) option" where
  "transcribeUserSpeech st guildId userId =
     (case ctx st of
        None \<Rightarrow> (st, None)
      | Some c \<Rightarrow>
          (let bufferKey = bufferKey_of guildId userId
           in case audioBuffers st bufferKey of
                None \<Rightarrow> (st, None)
              | Some buffer \<Rightarrow>
                  if length (chunks buffer) = 0 then (st, None)
                  else
                    (let audioPCM = concat (chunks buffer);
                         st' = st\<lparr>audioBuffers := (audioBuffers st)(bufferKey := None)\<rparr>
                     in if \<not> getSTT c then (st', None)
                        else (st', Some (audioPCM,
                                \<lparr>opt_format = ''pcm_s16le'', opt_sampleRate = 16000,
                                 opt_language = ''en''\<rparr>)))))"

section \<open>Properties of the byte encoding\<close>

lemma int16le_range: "- 32768 \<le> int16le a b \<and> int16le a b \<le> 32767"
proof -
  have "uint a < 256" "uint b < 256"
    using uint_bounded [of a] uint_bounded [of b] by simp_all
  moreover have "0 \<le> uint a" "0 \<le> uint b" by simp_all
  ultimately show ?thesis unfolding int16le_def Let_def by (simp; linarith)
qed

lemma int16le_write:
  assumes "- 32768 \<le> v" "v \<le> 32767"
  shows "int16le (word_of_int v) (word_of_int (v div 2 ^ 8)) = v"
proof -
  have a: "uint (word_of_int v :: byte) = v mod 256"
    by (simp add: uint_word_of_int_eq take_bit_eq_mod)
  have b: "uint (word_of_int (v div 2 ^ 8) :: byte) = (v div 256) mod 256"
    by (simp add: uint_word_of_int_eq take_bit_eq_mod)
  have c: "v mod 256 + (v div 256) mod 256 * 256 = v mod 65536"
    using zmod_zmult2_eq [of 256 v 256] by simp
  have d: "v mod 65536 = (if v < 0 then v + 65536 else v)"
  proof (cases "v < 0")
    case True
    then have "(v + 65536) mod 65536 = v + 65536" using assms by (intro mod_pos_pos_trivial) auto
    then show ?thesis using True by simp
  next
    case False
    then show ?thesis using assms by (simp add: mod_pos_pos_trivial)
  qed
  have e: "uint (word_of_int v :: byte) + uint (word_of_int (v div 2 ^ 8) :: byte) * 2 ^ 8
             = (if v < 0 then v + 65536 else v)"
    using c d unfolding a b by simp
  show ?thesis unfolding int16le_def Let_def e using assms by auto
qed

lemma int16le_zero: "int16le 0 0 = 0"
  by (simp add: int16le_def)

lemma mono_mix_div: "mono_mix l r = (l + r) div 2"
  unfolding mono_mix_def by (metis floor_divide_of_int_eq of_int_numeral)

lemma mono_mix_range:
  "- 32768 \<le> l \<Longrightarrow> l \<le> 32767 \<Longrightarrow> - 32768 \<le> r \<Longrightarrow> r \<le> 32767 \<Longrightarrow> - 32768 \<le> mono_mix l r \<and> mono_mix l r \<le> 32767"
  unfolding mono_mix_div by auto

lemma outputSamples_div: "nat \<lfloor>((of_nat n :: real) / 4) / 3\<rfloor> = n div 12"
proof -
  have "((of_nat n :: real) / 4) / 3 = of_int (int n) / of_int 12" by simp
  then have "\<lfloor>((of_nat n :: real) / 4) / 3\<rfloor> = int n div 12"
    by (simp only: floor_divide_of_int_eq)
  then show ?thesis by (simp add: nat_div_distrib)
qed

section \<open>Properties of the rounding\<close>

lemma rhe_bounds: "\<lfloor>r\<rfloor> \<le> round_half_even r \<and> round_half_even r \<le> \<lfloor>r\<rfloor> + 1"
  by (simp add: round_half_even_def Let_def)

lemma rhe_of_int [simp]: "round_half_even (of_int k) = k"
  by (simp add: round_half_even_def)

lemma rhe_mono: "r \<le> s \<Longrightarrow> round_half_even r \<le> round_half_even s"
proof -
  assume rs: "r \<le> s"
  then have f: "\<lfloor>r\<rfloor> \<le> \<lfloor>s\<rfloor>" by (rule floor_mono)
  show ?thesis
  proof (cases "\<lfloor>r\<rfloor> = \<lfloor>s\<rfloor>")
    case True
    then have "r - of_int \<lfloor>r\<rfloor> \<le> s - of_int \<lfloor>s\<rfloor>" using rs by simp
    then show ?thesis using True by (auto simp: round_half_even_def Let_def)
  next
    case False
    then have "\<lfloor>r\<rfloor> + 1 \<le> \<lfloor>s\<rfloor>" using f by linarith
    then show ?thesis using rhe_bounds [of r] rhe_bounds [of s] by linarith
  qed
qed

lemma rhe_nonneg: "0 \<le> r \<Longrightarrow> 0 \<le> round_half_even r"
  using rhe_mono [of 0 r] rhe_of_int [of 0] by simp

lemma log2_bracket:
  assumes "0 < x"
  shows "2 powr of_int \<lfloor>log 2 x\<rfloor> \<le> x" and "x < 2 powr (of_int \<lfloor>log 2 x\<rfloor> + 1)"
proof -
  have "of_int \<lfloor>log 2 x\<rfloor> \<le> log 2 x \<longleftrightarrow> 2 powr of_int \<lfloor>log 2 x\<rfloor> \<le> x"
    using assms by (intro le_log_iff) simp_all
  then show "2 powr of_int \<lfloor>log 2 x\<rfloor> \<le> x" by simp
  have "log 2 x < of_int \<lfloor>log 2 x\<rfloor> + 1 \<longleftrightarrow> x < 2 powr (of_int \<lfloor>log 2 x\<rfloor> + 1)"
    using assms by (intro log_less_iff) simp_all
  moreover have "log 2 x < of_int \<lfloor>log 2 x\<rfloor> + 1" by linarith
  ultimately show "x < 2 powr (of_int \<lfloor>log 2 x\<rfloor> + 1)" by blast
qed

lemma log2_floor_eq:
  assumes "0 < x" "2 powr of_int e \<le> x" "x < 2 powr (of_int e + 1)"
  shows "\<lfloor>log 2 x\<rfloor> = e"
proof (rule floor_unique)
  have "of_int e \<le> log 2 x \<longleftrightarrow> 2 powr of_int e \<le> x"
    using assms(1) by (intro le_log_iff) simp_all
  then show "of_int e \<le> log 2 x" using assms(2) by blast
  have "log 2 x < of_int e + 1 \<longleftrightarrow> x < 2 powr (of_int e + 1)"
    using assms(1) by (intro log_less_iff) simp_all
  then show "log 2 x < of_int e + 1" using assms(3) by blast
qed

lemma binary64_zero [simp]: "binary64 0 = 0"
  by (simp add: binary64_def)

lemma binary64_minus: "binary64 (- x) = - binary64 x"
  by (simp add: binary64_def binary64_exponent_def Let_def sgn_minus)

lemma binary64_nonneg: "0 \<le> x \<Longrightarrow> 0 \<le> binary64 x"
  by (auto simp: binary64_def Let_def intro!: mult_nonneg_nonneg rhe_nonneg)

lemma binary64_pos_unfold:
  assumes "0 < x"
  shows "binary64 x = of_int (round_half_even (x / 2 powr (of_int (binary64_exponent x) - 52)))
           * 2 powr (of_int (binary64_exponent x) - 52)"
  using assms by (simp add: binary64_def Let_def)

lemma exponent_bracket:
  assumes "0 < x"
  shows "binary64_exponent x = \<lfloor>log 2 x\<rfloor> \<or> (binary64_exponent x = - 1022 \<and> \<lfloor>log 2 x\<rfloor> < - 1022)"
  unfolding binary64_exponent_def abs_of_pos [OF assms] by arith

lemma exponent_upper:
  assumes "0 < x"
  shows "x < 2 powr (of_int (binary64_exponent x) + 1)"
proof -
  have "\<lfloor>log 2 x\<rfloor> \<le> binary64_exponent x" using assms by (simp add: binary64_exponent_def)
  then have "(2 :: real) powr (of_int \<lfloor>log 2 x\<rfloor> + 1) \<le> 2 powr (of_int (binary64_exponent x) + 1)"
    by simp
  then show ?thesis using log2_bracket(2) [OF assms] by linarith
qed

lemma exponent_mono:
  assumes "0 < x" "x \<le> y"
  shows "binary64_exponent x \<le> binary64_exponent y"
proof -
  have "log 2 x \<le> log 2 y" using assms by simp
  then have "\<lfloor>log 2 x\<rfloor> \<le> \<lfloor>log 2 y\<rfloor>" by (rule floor_mono)
  then show ?thesis using assms by (simp add: binary64_exponent_def)
qed

lemma two_powr_nat: "0 \<le> n \<Longrightarrow> (2 :: real) powr of_int n = of_int (2 ^ nat n)"
  by (simp add: powr_int)

lemma binary64_scaled_le:
  assumes "0 < x"
  shows "binary64 x \<le> 2 powr (of_int (binary64_exponent x) + 1)"
proof -
  let ?u = "(2 :: real) powr (of_int (binary64_exponent x) - 52)"
  have u: "0 < ?u" by simp
  have "x / ?u < 2 powr (of_int (binary64_exponent x) + 1) / ?u"
    using exponent_upper [OF assms] u by (simp add: divide_strict_right_mono)
  also have "\<dots> = 2 powr 53" by (simp add: powr_diff [symmetric])
  also have "\<dots> = of_int (2 ^ 53)" by simp
  finally have "round_half_even (x / ?u) \<le> 2 ^ 53"
    using rhe_mono [of "x / ?u" "of_int (2 ^ 53)"] by (simp only: rhe_of_int less_imp_le)
  then have "of_int (round_half_even (x / ?u)) * ?u \<le> of_int (2 ^ 53) * ?u"
    using u by (intro mult_right_mono) (simp_all del: of_int_power)
  also have "\<dots> = 2 powr 53 * ?u" by simp
  also have "\<dots> = 2 powr (53 + (of_int (binary64_exponent x) - 52))" by (simp only: powr_add)
  also have "\<dots> = 2 powr (of_int (binary64_exponent x) + 1)" by (simp add: algebra_simps)
  finally show ?thesis using binary64_pos_unfold [OF assms] by simp
qed

lemma binary64_scaled_ge:
  assumes "0 < x" "2 powr of_int (binary64_exponent x) \<le> x"
  shows "2 powr of_int (binary64_exponent x) \<le> binary64 x"
proof -
  let ?u = "(2 :: real) powr (of_int (binary64_exponent x) - 52)"
  have u: "0 < ?u" by simp
  have "2 powr of_int (binary64_exponent x) / ?u \<le> x / ?u"
    using assms(2) u by (simp add: divide_right_mono)
  moreover have "2 powr of_int (binary64_exponent x) / ?u = 2 powr 52" by (simp add: powr_diff [symmetric])
  moreover have "(2 :: real) powr 52 = of_int (2 ^ 52)" by simp
  ultimately have "of_int (2 ^ 52) \<le> x / ?u" by simp
  then have "2 ^ 52 \<le> round_half_even (x / ?u)"
    using rhe_mono [of "of_int (2 ^ 52)" "x / ?u"] by (simp only: rhe_of_int)
  then have m: "of_int (2 ^ 52) * ?u \<le> of_int (round_half_even (x / ?u)) * ?u"
    using u by (intro mult_right_mono) (simp_all del: of_int_power)
  have "(2 :: real) powr of_int (binary64_exponent x) =
      2 powr (52 + (of_int (binary64_exponent x) - 52))" by simp
  also have "\<dots> = 2 powr 52 * ?u" by (simp only: powr_add)
  also have "\<dots> = of_int (2 ^ 52) * ?u" by simp
  also have "\<dots> \<le> of_int (round_half_even (x / ?u)) * ?u" by (rule m)
  finally show ?thesis using binary64_pos_unfold [OF assms(1)] by simp
qed

lemma binary64_mono_pos:
  assumes "0 < x" "x \<le> y"
  shows "binary64 x \<le> binary64 y"
proof -
  have y: "0 < y" using assms by simp
  let ?ex = "binary64_exponent x" and ?ey = "binary64_exponent y"
  have le: "?ex \<le> ?ey" using exponent_mono [OF assms] .
  show ?thesis
  proof (cases "?ex = ?ey")
    case True
    let ?u = "(2 :: real) powr (of_int ?ey - 52)"
    have u: "0 < ?u" by simp
    have "x / ?u \<le> y / ?u" using assms(2) u by (simp add: divide_right_mono)
    then have "round_half_even (x / ?u) \<le> round_half_even (y / ?u)" by (rule rhe_mono)
    then have "of_int (round_half_even (x / ?u)) * ?u \<le> of_int (round_half_even (y / ?u)) * ?u"
      using u by (intro mult_right_mono) simp_all
    then show ?thesis
      using binary64_pos_unfold [OF assms(1)] binary64_pos_unfold [OF y] True by simp
  next
    case False
    then have lt: "?ex + 1 \<le> ?ey" using le by linarith
    then have ey: "?ey = \<lfloor>log 2 y\<rfloor>"
      using exponent_bracket [OF y] exponent_bracket [OF assms(1)]
      by (auto simp: binary64_exponent_def)
    have "2 powr of_int ?ey \<le> y" unfolding ey using log2_bracket(1) [OF y] .
    then have b: "2 powr of_int ?ey \<le> binary64 y" using binary64_scaled_ge [OF y] by simp
    have "of_int ?ex + 1 \<le> (of_int ?ey :: real)" using lt by linarith
    then have "(2 :: real) powr (of_int ?ex + 1) \<le> 2 powr of_int ?ey" by simp
    then show ?thesis using binary64_scaled_le [OF assms(1)] b by linarith
  qed
qed

lemma binary64_mono: "0 \<le> x \<Longrightarrow> x \<le> y \<Longrightarrow> binary64 x \<le> binary64 y"
  using binary64_mono_pos [of x y] binary64_nonneg [of y] by (cases "x = 0") auto

lemma binary64_eval:
  assumes "0 < x" "2 powr of_int e \<le> x" "x < 2 powr (of_int e + 1)" "- 1022 \<le> e"
  shows "binary64 x = of_int (round_half_even (x / 2 powr (of_int e - 52))) * 2 powr (of_int e - 52)"
proof -
  have "\<lfloor>log 2 x\<rfloor> = e" using log2_floor_eq [OF assms(1-3)] .
  then have "binary64_exponent x = e"
    unfolding binary64_exponent_def abs_of_pos [OF assms(1)] using assms(4) by simp
  then show ?thesis using binary64_pos_unfold [OF assms(1)] by simp
qed

lemma binary64_eval_frac:
  assumes "0 < x" "2 ^ 52 \<le> x * 2 ^ n" "x * 2 ^ n < 2 ^ 53" "n \<le> 1074"
  shows "binary64 x = of_int (round_half_even (x * 2 ^ n)) / 2 ^ n"
proof -
  define e where "e = 52 - int n"
  have p: "(2 :: real) powr (of_int e - 52) = 1 / 2 ^ n"
    by (simp add: e_def powr_minus powr_realpow inverse_eq_divide)
  have "(2 :: real) powr of_int e = 2 powr 52 * 2 powr (of_int e - 52)"
    by (simp only: powr_add [symmetric]) simp
  then have q: "(2 :: real) powr of_int e = 2 ^ 52 / 2 ^ n" unfolding p by simp
  have "(2 :: real) powr (of_int e + 1) = 2 powr 53 * 2 powr (of_int e - 52)"
    by (simp only: powr_add [symmetric]) (simp add: algebra_simps)
  then have r: "(2 :: real) powr (of_int e + 1) = 2 ^ 53 / 2 ^ n" unfolding p by simp
  have a: "2 powr of_int e \<le> x" unfolding q using assms(2) by (simp add: field_simps)
  have b: "x < 2 powr (of_int e + 1)" unfolding r using assms(3) by (simp add: field_simps)
  have c: "- 1022 \<le> e" using assms(4) by (simp add: e_def)
  show ?thesis using binary64_eval [OF assms(1) a b c] unfolding p by simp
qed

lemma binary64_eval_big:
  assumes "2 ^ 52 * 2 ^ n \<le> x" "x < 2 ^ 53 * 2 ^ n"
  shows "binary64 x = of_int (round_half_even (x / 2 ^ n)) * 2 ^ n"
proof -
  define e where "e = 52 + int n"
  have x: "0 < x" using assms(1) by (smt (verit) zero_less_mult_iff zero_less_numeral zero_less_power)
  have p: "(2 :: real) powr (of_int e - 52) = 2 ^ n"
    by (simp add: e_def powr_realpow)
  have "(2 :: real) powr of_int e = 2 powr 52 * 2 powr (of_int e - 52)"
    by (simp only: powr_add [symmetric]) simp
  then have q: "(2 :: real) powr of_int e = 2 ^ 52 * 2 ^ n" unfolding p by simp
  have "(2 :: real) powr (of_int e + 1) = 2 powr 53 * 2 powr (of_int e - 52)"
    by (simp only: powr_add [symmetric]) (simp add: algebra_simps)
  then have r: "(2 :: real) powr (of_int e + 1) = 2 ^ 53 * 2 ^ n" unfolding p by simp
  have a: "2 powr of_int e \<le> x" unfolding q using assms(1) .
  have b: "x < 2 powr (of_int e + 1)" unfolding r using assms(2) .
  have c: "- 1022 \<le> e" by (simp add: e_def)
  show ?thesis using binary64_eval [OF x a b c] unfolding p by simp
qed

lemma binary64_representable_pos:
  assumes "0 < k" "k < 2 ^ 53" "- 1074 \<le> j"
  shows "binary64 (of_int k * 2 powr of_int j) = of_int k * 2 powr of_int j"
proof -
  define x :: real where "x = of_int k * 2 powr of_int j"
  have x: "0 < x" using assms(1) by (simp add: x_def)
  define E where "E = binary64_exponent x"
  have le: "E - 52 \<le> j"
  proof -
    consider (n) "E = \<lfloor>log 2 x\<rfloor>" | (s) "E = - 1022"
      using exponent_bracket [OF x] by (auto simp: E_def)
    then show ?thesis
    proof cases
      case n
      have "2 powr of_int E \<le> x" unfolding n using log2_bracket(1) [OF x] .
      also have "x < 2 ^ 53 * 2 powr of_int j"
        unfolding x_def using assms(2) by (intro mult_strict_right_mono) (simp_all add: of_int_less_iff [of k "2 ^ 53", where ?'a = real, simplified])
      also have "\<dots> = 2 powr 53 * 2 powr of_int j" by simp
      also have "\<dots> = 2 powr (53 + of_int j)" by (simp only: powr_add)
      finally have "of_int E < (53 + of_int j :: real)" by simp
      then show ?thesis by linarith
    next
      case s
      then show ?thesis using assms(3) by simp
    qed
  qed
  define d where "d = nat (j - (E - 52))"
  have dj: "of_int j = (of_int (E - 52) :: real) + of_nat d" using le by (simp add: d_def)
  have "x / 2 powr (of_int E - 52) = of_int k * (2 powr of_int j / 2 powr (of_int E - 52))"
    by (simp add: x_def)
  also have "2 powr of_int j / 2 powr (of_int E - 52) = (2 :: real) powr of_nat d"
    unfolding dj by (simp add: powr_diff [symmetric])
  also have "\<dots> = 2 ^ d" by (simp add: powr_realpow)
  finally have q: "x / 2 powr (of_int E - 52) = of_int (k * 2 ^ d)" by simp
  have "binary64 x = of_int (k * 2 ^ d) * 2 powr (of_int E - 52)"
    using binary64_pos_unfold [OF x] unfolding E_def [symmetric] q by (simp only: rhe_of_int)
  also have "\<dots> = x" using q by (simp add: field_simps)
  finally show ?thesis unfolding x_def .
qed

lemma binary64_of_int:
  assumes "\<bar>k\<bar> \<le> 2 ^ 53"
  shows "binary64 (of_int k) = of_int k"
proof -
  have pos: "binary64 (of_int n) = of_int n" if "0 < n" "n \<le> 2 ^ 53" for n :: int
  proof (cases "n = 2 ^ 53")
    case True
    have "binary64 (of_int 1 * 2 powr of_int 53) = of_int 1 * 2 powr of_int 53"
      by (rule binary64_representable_pos) simp_all
    then show ?thesis using True by simp
  next
    case False
    then have "n < 2 ^ 53" using that by simp
    from binary64_representable_pos [OF that(1) this, of 0] show ?thesis by simp
  qed
  consider "k = 0" | "0 < k" | "k < 0" by linarith
  then show ?thesis
  proof cases
    case 1
    then show ?thesis by simp
  next
    case 2
    then show ?thesis using pos [of k] assms by simp
  next
    case 3
    then have "binary64 (of_int (- k)) = of_int (- k)" using pos [of "- k"] assms by simp
    then show ?thesis using binary64_minus [of "of_int k"] by simp
  qed
qed

lemma binary64_of_nat: "n \<le> 2 ^ 53 \<Longrightarrow> binary64 (of_nat n) = of_nat n"
  using binary64_of_int [of "int n"] by simp

lemma binary64_numeral [simp]:
  "numeral n \<le> (2 ^ 53 :: int) \<Longrightarrow> binary64 (numeral n) = numeral n"
  using binary64_of_int [of "numeral n"] by simp

lemma binary64_halves:
  assumes "0 < k" "k < 2 ^ 53"
  shows "binary64 (of_int k / 2) = of_int k / 2"
  using binary64_representable_pos [OF assms, of "- 1"] by (simp add: powr_minus field_simps)

lemma binary64_quarters:
  assumes "0 < k" "k < 2 ^ 53"
  shows "binary64 (of_int k / 4) = of_int k / 4"
  using binary64_representable_pos [OF assms, of "- 2"] by (simp add: powr_minus field_simps)

lemma js_finite_Num: "\<bar>q\<bar> < 2 ^ 1024 \<Longrightarrow> js_finite q = Num q"
  by (simp add: js_finite_def)

lemma js_finite_not_NaN: "js_finite q \<noteq> NaN"
  by (simp add: js_finite_def)

lemma js_divide_not_NaN: "b \<noteq> 0 \<Longrightarrow> js_divide a b \<noteq> NaN"
  by (simp add: js_divide_def js_finite_not_NaN)


section \<open>Properties of downsampleAndMono\<close>

lemma writeInt16LE_in:
  "- 32768 \<le> v \<Longrightarrow> v \<le> 32767 \<Longrightarrow> k + 1 < length buf \<Longrightarrow>
   writeInt16LE buf v (int k) = Inr (buf[k := word_of_int v, k + 1 := word_of_int (v div 2 ^ 8)])"
  by (simp add: writeInt16LE_def nat_add_distrib)

lemma frame_mono_range: "- 32768 \<le> frame_mono buffer j \<and> frame_mono buffer j \<le> 32767"
  unfolding frame_mono_def using int16le_range mono_mix_range by blast

lemma downsample_loop_inv:
  assumes "i \<le> n" "length output = 2 * n" "12 * n \<le> length buffer"
  shows "\<exists>out. downsample_loop buffer n i output = Inr out \<and> length out = 2 * n \<and>
           (\<forall>k < 2 * i. out ! k = output ! k) \<and>
           (\<forall>j. i \<le> j \<and> j < n \<longrightarrow>
              out ! (2 * j) = word_of_int (frame_mono buffer j) \<and>
              out ! (2 * j + 1) = word_of_int (frame_mono buffer j div 2 ^ 8))"
  using assms
proof (induction "n - i" arbitrary: i "output")
  case 0
  then have "i = n" by simp
  then show ?case using 0 by (auto simp: downsample_loop.simps)
next
  case (Suc d)
  then have lt: "i < n" by simp
  have bound: "12 * i + 3 < length buffer" using lt Suc.prems(3) by linarith
  have n0: "nat (int i * 3 * 4) = 12 * i" "nat (int i * 3 * 4 + 1) = 12 * i + 1"
    "nat (int i * 3 * 4 + 2) = 12 * i + 2" "nat (int i * 3 * 4 + 2 + 1) = 12 * i + 3"
    by linarith+
  have r1: "readInt16LE buffer (int i * 3 * 4) = Inr (int16le (buffer ! (12 * i)) (buffer ! (12 * i + 1)))"
    unfolding readInt16LE_def n0 using bound by auto
  have r2: "readInt16LE buffer (int i * 3 * 4 + 2) = Inr (int16le (buffer ! (12 * i + 2)) (buffer ! (12 * i + 3)))"
    unfolding readInt16LE_def n0 using bound by auto
  define v where "v = frame_mono buffer i"
  define output' where "output' = output[2 * i := word_of_int v, 2 * i + 1 := word_of_int (v div 2 ^ 8)]"
  have w: "writeInt16LE output v (int i * 2) = Inr output'"
    using writeInt16LE_in [of v "2 * i" "output"] frame_mono_range [of buffer i] lt Suc.prems(2)
    by (simp add: v_def output'_def mult.commute)
  have step: "downsample_loop buffer n i output = downsample_loop buffer n (i + 1) output'"
    using lt r1 r2 w by (subst downsample_loop.simps) (simp add: v_def frame_mono_def)
  have len': "length output' = 2 * n" using Suc.prems(2) by (simp add: output'_def)
  have d: "d = n - (i + 1)" using Suc.hyps(2) by linarith
  have le: "i + 1 \<le> n" using lt by simp
  from Suc.hyps(1) [OF d le len' Suc.prems(3)]
  obtain out where out: "downsample_loop buffer n (i + 1) output' = Inr out" "length out = 2 * n"
    "\<forall>k < 2 * (i + 1). out ! k = output' ! k"
    "\<forall>j. i + 1 \<le> j \<and> j < n \<longrightarrow>
              out ! (2 * j) = word_of_int (frame_mono buffer j) \<and>
              out ! (2 * j + 1) = word_of_int (frame_mono buffer j div 2 ^ 8)"
    by blast
  have a: "out ! (2 * i) = word_of_int v" "out ! (2 * i + 1) = word_of_int (v div 2 ^ 8)"
    using out(3) lt Suc.prems(2) by (simp_all add: output'_def)
  have b: "\<forall>k < 2 * i. out ! k = output ! k"
    using out(3) by (simp add: output'_def)
  have c: "\<forall>j. i \<le> j \<and> j < n \<longrightarrow>
              out ! (2 * j) = word_of_int (frame_mono buffer j) \<and>
              out ! (2 * j + 1) = word_of_int (frame_mono buffer j div 2 ^ 8)"
  proof (intro allI impI)
    fix j assume j: "i \<le> j \<and> j < n"
    show "out ! (2 * j) = word_of_int (frame_mono buffer j) \<and>
              out ! (2 * j + 1) = word_of_int (frame_mono buffer j div 2 ^ 8)"
    proof (cases "j = i")
      case True
      then show ?thesis using a by (simp add: v_def)
    next
      case False
      then show ?thesis using out(4) j by simp
    qed
  qed
  show ?case using step out(1,2) b c by simp
qed

lemma downsampleAndMono_result:
  "\<exists>out. downsampleAndMono buffer = Inr out \<and> length out = 2 * (length buffer div 12) \<and>
     (\<forall>j < length buffer div 12.
        out ! (2 * j) = word_of_int (frame_mono buffer j) \<and>
        out ! (2 * j + 1) = word_of_int (frame_mono buffer j div 2 ^ 8))"
proof -
  define n where "n = length buffer div 12"
  have "12 * n \<le> length buffer" by (simp add: n_def)
  from downsample_loop_inv [of 0 n "Buffer_alloc (n * 2)" buffer, OF _ _ this]
  show ?thesis
    unfolding downsampleAndMono_def Let_def outputSamples_div n_def [symmetric]
    by (simp add: Buffer_alloc_def)
qed

lemma frame_read:
  assumes "j < length buffer div 12"
  shows "readInt16LE buffer (int (j * 3) * 4) = Inr (int16le (buffer ! (12 * j)) (buffer ! (12 * j + 1)))"
    and "readInt16LE buffer (int (j * 3) * 4 + 2) = Inr (int16le (buffer ! (12 * j + 2)) (buffer ! (12 * j + 3)))"
proof -
  have bound: "12 * j + 3 < length buffer" using assms by linarith
  have n0: "nat (int (j * 3) * 4) = 12 * j" "nat (int (j * 3) * 4 + 1) = 12 * j + 1"
    "nat (int (j * 3) * 4 + 2) = 12 * j + 2" "nat (int (j * 3) * 4 + 2 + 1) = 12 * j + 3"
    by linarith+
  show "readInt16LE buffer (int (j * 3) * 4) = Inr (int16le (buffer ! (12 * j)) (buffer ! (12 * j + 1)))"
    unfolding readInt16LE_def n0 using bound by auto
  show "readInt16LE buffer (int (j * 3) * 4 + 2) = Inr (int16le (buffer ! (12 * j + 2)) (buffer ! (12 * j + 3)))"
    unfolding readInt16LE_def n0 using bound by auto
qed

lemma sample_read_back:
  assumes "length out = 2 * n" "j < n" "- 32768 \<le> v" "v \<le> 32767"
    "out ! (2 * j) = word_of_int v" "out ! (2 * j + 1) = word_of_int (v div 2 ^ 8)"
  shows "readInt16LE out (int j * 2) = Inr v"
proof -
  have n0: "nat (int j * 2) = 2 * j" "nat (int j * 2 + 1) = 2 * j + 1" by linarith+
  have "2 * j + 1 < length out" using assms(1,2) by linarith
  then show ?thesis unfolding readInt16LE_def n0 using assms(3-6) int16le_write [of v]
    by auto
qed

lemma frame_mono_zero:
  assumes "\<forall>b \<in> set buffer. b = 0" "j < length buffer div 12"
  shows "frame_mono buffer j = 0"
proof -
  have "12 * j + 3 < length buffer" using assms(2) by linarith
  then have "buffer ! (12 * j) = 0" "buffer ! (12 * j + 1) = 0" "buffer ! (12 * j + 2) = 0"
    "buffer ! (12 * j + 3) = 0"
    using assms(1) by (simp_all add: nth_mem)
  then show ?thesis by (simp add: frame_mono_def int16le_zero mono_mix_div)
qed

text \<open>
  Claim C2.  For a stereo buffer whose length is a multiple of 4, \<^verbatim>\<open>downsampleAndMono\<close>
  returns \<open>floor((length / 4) / 3) * 2\<close> bytes; the sample at output index \<open>i\<close>, read
  as a signed 16-bit little-endian integer, is \<open>floor((left + right) / 2)\<close> of the stereo
  pair at source index \<open>i * 3\<close>; the frames after the last full group of three do not
  appear in the output; an all-zero input gives an all-zero output of that length.
\<close>

theorem downsampleAndMono_correct:
  assumes "length buffer mod 4 = 0"
  shows "\<exists>out. downsampleAndMono buffer = Inr out \<and>
           length out = nat \<lfloor>(of_nat (length buffer) / 4 :: real) / 3\<rfloor> * 2 \<and>
           (\<forall>i < nat \<lfloor>(of_nat (length buffer) / 4 :: real) / 3\<rfloor>.
              \<exists>left right.
                readInt16LE buffer (int (i * 3) * 4) = Inr left \<and>
                readInt16LE buffer (int (i * 3) * 4 + 2) = Inr right \<and>
                readInt16LE out (int i * 2) = Inr \<lfloor>(of_int (left + right) :: real) / 2\<rfloor>) \<and>
           ((\<forall>b \<in> set buffer. b = 0) \<longrightarrow>
              out = replicate (nat \<lfloor>(of_nat (length buffer) / 4 :: real) / 3\<rfloor> * 2) 0)"
proof -
  define n where "n = length buffer div 12"
  obtain out where out: "downsampleAndMono buffer = Inr out" "length out = 2 * n"
    "\<forall>j < n. out ! (2 * j) = word_of_int (frame_mono buffer j) \<and>
        out ! (2 * j + 1) = word_of_int (frame_mono buffer j div 2 ^ 8)"
    using downsampleAndMono_result [of buffer] unfolding n_def by blast
  have samples: "\<exists>left right.
                readInt16LE buffer (int (i * 3) * 4) = Inr left \<and>
                readInt16LE buffer (int (i * 3) * 4 + 2) = Inr right \<and>
                readInt16LE out (int i * 2) = Inr \<lfloor>(of_int (left + right) :: real) / 2\<rfloor>"
    if "i < n" for i
  proof -
    have "readInt16LE out (int i * 2) = Inr (frame_mono buffer i)"
      using sample_read_back [OF out(2) that] frame_mono_range [of buffer i] out(3) that by blast
    then show ?thesis
      using frame_read [of i buffer] that unfolding n_def frame_mono_def mono_mix_def by blast
  qed
  have zero: "out = replicate (n * 2) 0" if z: "\<forall>b \<in> set buffer. b = 0"
  proof (rule nth_equalityI)
    show "length out = length (replicate (n * 2) (0 :: byte))" using out(2) by simp
  next
    fix k assume "k < length out"
    then have k: "k div 2 < n" using out(2) by linarith
    then have fm: "frame_mono buffer (k div 2) = 0" using frame_mono_zero [OF z] by (simp add: n_def)
    have "out ! (2 * (k div 2)) = 0" "out ! (2 * (k div 2) + 1) = 0"
      using out(3) k fm by simp_all
    moreover have "k = 2 * (k div 2) \<or> k = 2 * (k div 2) + 1" by linarith
    ultimately have "out ! k = 0" by metis
    then show "out ! k = replicate (n * 2) 0 ! k" using \<open>k < length out\<close> out(2) by simp
  qed
  show ?thesis
    unfolding outputSamples_div n_def [symmetric] using out(1,2) samples zero by auto
qed

theorem downsampleAndMono_correct_witness:
  "length [1, 0, 2, 0, 0, 0, 0, 0, 0, 0, 0, 0 :: byte] mod 4 = 0 \<and>
   (\<exists>out. downsampleAndMono [1, 0, 2, 0, 0, 0, 0, 0, 0, 0, 0, 0] = Inr out \<and> length out = 2 \<and>
      readInt16LE out 0 = Inr 1)"
proof -
  let ?b = "[1, 0, 2, 0, 0, 0, 0, 0, 0, 0, 0, 0 :: byte]"
  have h: "length ?b mod 4 = 0" by simp
  have n: "nat \<lfloor>(of_nat (length ?b) / 4 :: real) / 3\<rfloor> = 1" by simp
  have l: "readInt16LE ?b (int (0 * 3) * 4) = Inr 1"
    by (simp add: readInt16LE_def int16le_def)
  have r: "readInt16LE ?b (int (0 * 3) * 4 + 2) = Inr 2"
    by (simp add: readInt16LE_def int16le_def)
  from downsampleAndMono_correct [OF h] obtain out where
    o: "downsampleAndMono ?b = Inr out" "length out = 2"
    "\<forall>i < 1. \<exists>left right.
        readInt16LE ?b (int (i * 3) * 4) = Inr left \<and>
        readInt16LE ?b (int (i * 3) * 4 + 2) = Inr right \<and>
        readInt16LE out (int i * 2) = Inr \<lfloor>(of_int (left + right) :: real) / 2\<rfloor>"
    unfolding n by auto
  from o(3) obtain left right where
    "readInt16LE ?b (int (0 * 3) * 4) = Inr left" "readInt16LE ?b (int (0 * 3) * 4 + 2) = Inr right"
    "readInt16LE out (int 0 * 2) = Inr \<lfloor>(of_int (left + right) :: real) / 2\<rfloor>"
    by blast
  with l r have "readInt16LE out 0 = Inr \<lfloor>(of_int (1 + 2) :: real) / 2\<rfloor>" by simp
  then have "readInt16LE out 0 = Inr 1" by simp
  with h o show ?thesis by blast
qed

text \<open>
  Claim C9.  For left and right samples in the signed 16-bit range the mono value
  \<open>floor((left + right) / 2)\<close> is in that range, so \<^verbatim>\<open>writeInt16LE\<close> accepts it at
  every offset inside the output, and \<^verbatim>\<open>downsampleAndMono\<close> never raises.
\<close>

theorem mono_mix_in_range:
  assumes "- 32768 \<le> left" "left \<le> 32767" "- 32768 \<le> right" "right \<le> 32767"
  shows "- 32768 \<le> mono_mix left right \<and> mono_mix left right \<le> 32767 \<and>
         (\<forall>out offset. 0 \<le> offset \<and> offset + 1 < int (length out) \<longrightarrow>
            (\<exists>out'. writeInt16LE out (mono_mix left right) offset = Inr out')) \<and>
         (\<forall>buffer. \<exists>out. downsampleAndMono buffer = Inr out)"
proof -
  have r: "- 32768 \<le> mono_mix left right \<and> mono_mix left right \<le> 32767"
    using mono_mix_range assms by blast
  then have w: "\<forall>out offset. 0 \<le> offset \<and> offset + 1 < int (length out) \<longrightarrow>
            (\<exists>out'. writeInt16LE out (mono_mix left right) offset = Inr out')"
    by (simp add: writeInt16LE_def)
  have "\<forall>buffer. \<exists>out. downsampleAndMono buffer = Inr out"
    using downsampleAndMono_result by blast
  then show ?thesis using r w by blast
qed

theorem mono_mix_in_range_witness:
  "- 32768 \<le> (- 32768 :: int) \<and> (32767 :: int) \<le> 32767 \<and> mono_mix (- 32768) 32767 = - 1 \<and>
   - 32768 \<le> mono_mix (- 32768) 32767 \<and> mono_mix (- 32768) 32767 \<le> 32767"
  using mono_mix_in_range [of "- 32768" "32767"] by (simp add: mono_mix_def)

section \<open>Properties of the detector\<close>

lemma samples_less_iff: "(of_nat i :: real) < of_nat n / 2 \<longleftrightarrow> 2 * i < n"
proof -
  have "(of_nat i :: real) < of_nat n / 2 \<longleftrightarrow> (of_nat (2 * i) :: real) < of_nat n"
    by (simp add: field_simps)
  then show ?thesis by (simp only: of_nat_less_iff)
qed

lemma detectSilence_loop_even:
  assumes "length buffer = 2 * m" "i \<le> m"
  shows "detectSilence_loop buffer (of_nat (length buffer) / 2) i acc =
           Inr (acc + (\<Sum>j = i..<m. \<bar>int16le (buffer ! (2 * j)) (buffer ! (2 * j + 1))\<bar>))"
  using assms(2)
proof (induction "m - i" arbitrary: i acc)
  case 0
  then have "i = m" by simp
  then have "\<not> 2 * i < length buffer" using assms(1) by simp
  then show ?case using \<open>i = m\<close>
    by (subst detectSilence_loop.simps) (simp add: samples_less_iff)
next
  case (Suc d)
  then have lt: "i < m" by simp
  then have c: "2 * i < length buffer" using assms(1) by simp
  have n0: "nat (int i * 2) = 2 * i" "nat (int i * 2 + 1) = 2 * i + 1" by linarith+
  have r: "readInt16LE buffer (int i * 2) = Inr (int16le (buffer ! (2 * i)) (buffer ! (2 * i + 1)))"
    unfolding readInt16LE_def n0 using lt assms(1) by auto
  have d: "d = m - (i + 1)" using Suc.hyps(2) by linarith
  have le: "i + 1 \<le> m" using lt by simp
  have "detectSilence_loop buffer (of_nat (length buffer) / 2) i acc =
        detectSilence_loop buffer (of_nat (length buffer) / 2) (i + 1)
          (acc + \<bar>int16le (buffer ! (2 * i)) (buffer ! (2 * i + 1))\<bar>)"
    using c r by (subst detectSilence_loop.simps) (simp add: samples_less_iff)
  also have "\<dots> = Inr (acc + \<bar>int16le (buffer ! (2 * i)) (buffer ! (2 * i + 1))\<bar> +
       (\<Sum>j = i + 1..<m. \<bar>int16le (buffer ! (2 * j)) (buffer ! (2 * j + 1))\<bar>))"
    using Suc.hyps(1) [OF d le] by simp
  also have "\<dots> = Inr (acc + (\<Sum>j = i..<m. \<bar>int16le (buffer ! (2 * j)) (buffer ! (2 * j + 1))\<bar>))"
    using lt by (simp add: sum.atLeast_Suc_lessThan)
  finally show ?case .
qed

lemma detectSilence_loop_odd:
  assumes "length buffer = 2 * m + 1" "i \<le> m"
  shows "detectSilence_loop buffer (of_nat (length buffer) / 2) i acc = Inl RangeError"
  using assms(2)
proof (induction "m - i" arbitrary: i acc)
  case 0
  then have "i = m" by simp
  then have c: "2 * i < length buffer" using assms(1) by simp
  have "readInt16LE buffer (int i * 2) = Inl RangeError"
    unfolding readInt16LE_def using \<open>i = m\<close> assms(1) by auto
  then show ?case using c
    by (subst detectSilence_loop.simps) (simp add: samples_less_iff)
next
  case (Suc d)
  then have lt: "i < m" by simp
  then have c: "2 * i < length buffer" using assms(1) by simp
  have n0: "nat (int i * 2) = 2 * i" "nat (int i * 2 + 1) = 2 * i + 1" by linarith+
  have r: "readInt16LE buffer (int i * 2) = Inr (int16le (buffer ! (2 * i)) (buffer ! (2 * i + 1)))"
    unfolding readInt16LE_def n0 using lt assms(1) by auto
  have d: "d = m - (i + 1)" using Suc.hyps(2) by linarith
  have le: "i + 1 \<le> m" using lt by simp
  have "detectSilence_loop buffer (of_nat (length buffer) / 2) i acc =
        detectSilence_loop buffer (of_nat (length buffer) / 2) (i + 1)
          (acc + \<bar>int16le (buffer ! (2 * i)) (buffer ! (2 * i + 1))\<bar>)"
    using c r by (subst detectSilence_loop.simps) (simp add: samples_less_iff)
  then show ?case using Suc.hyps(1) [OF d le] by simp
qed

lemma avgAmplitude_even:
  assumes "even (length buffer)"
  shows "avgAmplitude buffer = Inr (js_divide (of_int (abs_total buffer)) (of_nat (length buffer) / 2))"
proof -
  obtain m where m: "length buffer = 2 * m" using assms by (auto elim: evenE)
  show ?thesis
    unfolding avgAmplitude_def Let_def abs_total_def
    using detectSilence_loop_even [OF m, of 0 0] m by simp
qed

lemma avgAmplitude_odd:
  assumes "odd (length buffer)"
  shows "avgAmplitude buffer = Inl RangeError"
proof -
  obtain m where m: "length buffer = 2 * m + 1" using assms by (auto elim: oddE)
  show ?thesis
    unfolding avgAmplitude_def Let_def
    using detectSilence_loop_odd [OF m, of 0 0] by simp
qed

lemma avgAmplitude_empty: "avgAmplitude [] = Inr NaN"
  using avgAmplitude_even [of "[]"] by (simp add: abs_total_def js_divide_def)

lemma avgAmplitude_nonempty:
  assumes "even (length buffer)" "buffer \<noteq> []"
  shows "avgAmplitude buffer =
         Inr (js_finite (binary64 (of_int (abs_total buffer) / (of_nat (length buffer) / 2))))"
  using avgAmplitude_even [OF assms(1)] assms(2) by (simp add: js_divide_def)

lemma detectSilence_odd: "odd (length buffer) \<Longrightarrow> detectSilence this buffer = Inl RangeError"
  by (simp add: detectSilence_def avgAmplitude_odd)

lemma detectSilence_empty: "detectSilence this [] = Inr False"
  by (simp add: detectSilence_def avgAmplitude_empty)

lemma detectSilence_even:
  "even (length buffer) \<Longrightarrow> \<exists>b. detectSilence this buffer = Inr b"
  by (simp add: detectSilence_def avgAmplitude_even)

lemma abs_total_zeros: "abs_total (replicate n 0) = 0"
  unfolding abs_total_def by (simp add: int16le_zero)

lemma detectSilence_zeros:
  assumes "even n" "0 < n"
  shows "detectSilence this (replicate n 0) = Inr (0 < silenceThreshold this)"
  using avgAmplitude_nonempty [of "replicate n 0"] assms
  by (simp add: detectSilence_def abs_total_zeros js_finite_def)

lemma detectSilence_threshold:
  "silenceThreshold a = silenceThreshold b \<Longrightarrow> detectSilence a c = detectSilence b c"
  by (simp add: detectSilence_def split: sum.splits)

lemma transform_silent:
  assumes "detectSilence this c = Inr True"
  shows "VADDetector_transform this c =
     (if estimate_reached this (consecutiveSilence this + 1) c \<and> isSpeaking this
      then Inr (this\<lparr>consecutiveSilence := consecutiveSilence this + 1, isSpeaking := False\<rparr>,
                [SpeechEnd], [c])
      else Inr (this\<lparr>consecutiveSilence := consecutiveSilence this + 1\<rparr>, [], [c]))"
  using assms
  by (simp add: VADDetector_transform_def estimate_reached_def estimate_ms_def Let_def algebra_simps)

lemma transform_loud:
  assumes "detectSilence this c = Inr False"
  shows "VADDetector_transform this c =
     (if \<not> isSpeaking this
      then Inr (this\<lparr>isSpeaking := True, consecutiveSilence := 0\<rparr>, [SpeechStart], [c])
      else Inr (this\<lparr>consecutiveSilence := 0\<rparr>, [], [c]))"
  using assms by (simp add: VADDetector_transform_def)

lemma transform_error:
  assumes "detectSilence this c = Inl e"
  shows "VADDetector_transform this c = Inl e"
  using assms by (simp add: VADDetector_transform_def)

lemma transform_cases:
  assumes "VADDetector_transform this c = Inr (this', evs, pushed)"
  obtains (silent) "detectSilence this c = Inr True"
  | (loud) "detectSilence this c = Inr False"
proof (cases "detectSilence this c")
  case (Inl e)
  then show ?thesis using assms transform_error by simp
next
  case (Inr b)
  then show ?thesis using that by (cases b) auto
qed

lemma transform_frame:
  assumes "VADDetector_transform this c = Inr (this', evs, pushed)"
  shows "silenceThreshold this' = silenceThreshold this"
    and "silenceDurationMs this' = silenceDurationMs this"
    and "sampleRate this' = sampleRate this"
    and "pushed = [c]"
  using assms
  by (cases rule: transform_cases [OF assms]; auto simp: transform_silent transform_loud split: if_splits)+

lemma transform_alternates:
  assumes "VADDetector_transform this c = Inr (this', evs, pushed)"
  shows "alternates (isSpeaking this) evs \<and> isSpeaking this' = speaking_after (isSpeaking this) evs"
  using assms
  by (cases rule: transform_cases [OF assms];
      auto simp: transform_silent transform_loud speaking_after_def split: if_splits)

lemma alternates_append:
  "alternates sp (xs @ ys) \<longleftrightarrow> alternates sp xs \<and> alternates (speaking_after sp xs) ys"
proof (induction xs arbitrary: sp)
  case Nil
  show ?case by (simp add: speaking_after_def)
next
  case (Cons x xs)
  show ?case
  proof (cases x)
    case SpeechStart
    then show ?thesis using Cons [of True] by (auto simp: speaking_after_def)
  next
    case SpeechEnd
    then show ?thesis using Cons [of False] by (auto simp: speaking_after_def)
  qed
qed

lemma speaking_after_append:
  "speaking_after sp (xs @ ys) = speaking_after (speaking_after sp xs) ys"
  by (simp add: speaking_after_def)

lemma feed_alternates:
  assumes "feed this cs = (this', evs, pushed, r)"
  shows "alternates (isSpeaking this) evs \<and> isSpeaking this' = speaking_after (isSpeaking this) evs"
  using assms
proof (induction cs arbitrary: this this' evs pushed r)
  case Nil
  then show ?case by (simp add: speaking_after_def)
next
  case (Cons c cs)
  show ?case
  proof (cases "VADDetector_transform this c")
    case (Inl e)
    then show ?thesis using Cons.prems by (simp add: speaking_after_def)
  next
    case (Inr t)
    obtain this1 evs1 pushed1 where t: "t = (this1, evs1, pushed1)" by (cases t) auto
    obtain this2 evs2 pushed2 r2 where f: "feed this1 cs = (this2, evs2, pushed2, r2)"
      by (cases "feed this1 cs") auto
    have e: "evs = evs1 @ evs2" "this' = this2" using Cons.prems Inr t f by simp_all
    from transform_alternates [of this c this1 evs1 pushed1] Inr t
    have a: "alternates (isSpeaking this) evs1" "isSpeaking this1 = speaking_after (isSpeaking this) evs1"
      by simp_all
    from Cons.IH [OF f]
    have b: "alternates (isSpeaking this1) evs2" "isSpeaking this2 = speaking_after (isSpeaking this1) evs2"
      by simp_all
    show ?thesis using a b unfolding e by (simp add: alternates_append speaking_after_append)
  qed
qed

lemma feed_pushed:
  assumes "feed this cs = (this', evs, pushed, r)"
  shows "pushed = take (length pushed) cs \<and> (r = None \<longrightarrow> pushed = cs) \<and>
         ((\<forall>c \<in> set cs. even (length c)) \<longrightarrow> r = None)"
  using assms
proof (induction cs arbitrary: this this' evs pushed r)
  case Nil
  then show ?case by simp
next
  case (Cons c cs)
  show ?case
  proof (cases "VADDetector_transform this c")
    case (Inl e)
    have "odd (length c)"
    proof (rule ccontr)
      assume "\<not> odd (length c)"
      then obtain b where "detectSilence this c = Inr b" using detectSilence_even by auto
      then show False using Inl by (cases b) (auto simp: transform_silent transform_loud split: if_splits)
    qed
    then show ?thesis using Cons.prems Inl by auto
  next
    case (Inr t)
    obtain this1 evs1 pushed1 where t: "t = (this1, evs1, pushed1)" by (cases t) auto
    obtain this2 evs2 pushed2 r2 where f: "feed this1 cs = (this2, evs2, pushed2, r2)"
      by (cases "feed this1 cs") auto
    have p1: "pushed1 = [c]" using transform_frame(4) Inr t by simp
    have e: "pushed = c # pushed2" "r = r2" using Cons.prems Inr t f p1 by simp_all
    show ?thesis using Cons.IH [OF f] unfolding e by auto
  qed
qed

lemma silent_chunk_threshold:
  assumes "silenceThreshold a = silenceThreshold b"
  shows "silent_chunk a = silent_chunk b"
proof (rule ext)
  fix c
  show "silent_chunk a c = silent_chunk b c"
    unfolding silent_chunk_def by (simp only: detectSilence_threshold [OF assms])
qed


lemma estimate_ms_product: "estimate_ms this k len = estimate_ms this (k * len) 1"
  by (simp add: estimate_ms_def)

lemma estimate_ms_seconds:
  assumes "0 < sampleRate this" "of_nat a \<le> of_nat S * (sampleRate this * 2)" "S \<le> 2 ^ 40"
  shows "\<exists>v. estimate_ms this a 1 = Num v \<and> v \<le> 1000 * of_nat S"
proof -
  let ?r = "sampleRate this * 2"
  let ?q = "binary64 (of_nat a / ?r)"
  have r: "0 < ?r" "?r \<noteq> 0" using assms(1) by simp_all
  have s53: "S \<le> 2 ^ 53" "S * 1000 \<le> 2 ^ 53"
  proof -
    have "(2 :: nat) ^ 40 \<le> 2 ^ 53" by simp
    then show "S \<le> 2 ^ 53" using assms(3) by linarith
    have "S * 1000 \<le> 2 ^ 40 * 1000" using assms(3) by simp
    also have "\<dots> \<le> (2 :: nat) ^ 53" by simp
    finally show "S * 1000 \<le> 2 ^ 53" .
  qed
  have big: "(1000 * of_nat S :: real) < 2 ^ 1024"
  proof -
    have "(of_nat (S * 1000) :: real) \<le> of_nat (2 ^ 53)" using s53(2) by (simp only: of_nat_le_iff)
    moreover have "(of_nat (2 ^ 53) :: real) < 2 ^ 1024" by simp
    ultimately show ?thesis by simp
  qed
  have "of_nat a / ?r \<le> of_nat S" using assms(2) r(1) by (simp add: field_simps)
  then have "?q \<le> binary64 (of_nat S)" using r(1) by (intro binary64_mono) simp_all
  then have q: "0 \<le> ?q" "?q \<le> of_nat S"
    using r(1) binary64_of_nat [OF s53(1)] by (simp_all add: binary64_nonneg)
  have fq: "\<bar>?q\<bar> < 2 ^ 1024" using q big by linarith
  let ?p = "binary64 (?q * 1000)"
  have "?q * 1000 \<le> of_nat (S * 1000)" using q by simp
  then have "?p \<le> binary64 (of_nat (S * 1000))" using q by (intro binary64_mono) simp_all
  then have p: "0 \<le> ?p" "?p \<le> 1000 * of_nat S"
    using q binary64_of_nat [OF s53(2)] by (simp_all add: binary64_nonneg)
  have fp: "\<bar>?p\<bar> < 2 ^ 1024" using p big by linarith
  have "estimate_ms this a 1 = Num ?p"
    using r(2) fq fp by (simp add: estimate_ms_def js_divide_def js_finite_Num)
  then show ?thesis using p(2) by blast
qed




lemma feed_append:
  "feed this (xs @ ys) =
     (case feed this xs of
        (this1, evs1, pushed1, None) \<Rightarrow>
          (case feed this1 ys of
             (this2, evs2, pushed2, r) \<Rightarrow> (this2, evs1 @ evs2, pushed1 @ pushed2, r))
      | (this1, evs1, pushed1, Some e) \<Rightarrow> (this1, evs1, pushed1, Some e))"
proof (induction xs arbitrary: this)
  case Nil
  show ?case by (simp split: prod.splits)
next
  case (Cons x xs)
  show ?case
  proof (cases "VADDetector_transform this x")
    case (Inl e)
    then show ?thesis by simp
  next
    case (Inr t)
    obtain this1 evs1 pushed1 where t: "t = (this1, evs1, pushed1)" by (cases t) auto
    show ?thesis using Inr t Cons [of this1]
      by (simp split: prod.splits option.splits)
  qed
qed

lemma feed_all_silent:
  assumes "\<not> isSpeaking this" "\<forall>c \<in> set cs. silent_chunk this c"
  shows "feed this cs = (this\<lparr>consecutiveSilence := consecutiveSilence this + length cs\<rparr>, [], cs, None)"
  using assms
proof (induction cs arbitrary: this)
  case Nil
  then show ?case by simp
next
  case (Cons c cs)
  let ?this1 = "this\<lparr>consecutiveSilence := consecutiveSilence this + 1\<rparr>"
  have s: "detectSilence this c = Inr True" using Cons.prems(2) by (simp add: silent_chunk_def)
  have tr: "VADDetector_transform this c = Inr (?this1, [], [c])"
    using transform_silent [OF s] Cons.prems(1) by simp
  have sc: "silent_chunk ?this1 = silent_chunk this" by (rule silent_chunk_threshold) simp
  have "feed ?this1 cs = (?this1\<lparr>consecutiveSilence := consecutiveSilence ?this1 + length cs\<rparr>, [], cs, None)"
    using Cons.IH [of ?this1] Cons.prems sc by simp
  then show ?case using tr by simp
qed

lemma abs_total_pair: "abs_total [a, b] = \<bar>int16le a b\<bar>"
  by (simp add: abs_total_def)

lemma detectSilence_loud_sample: "silenceThreshold this \<le> 10000 \<Longrightarrow> detectSilence this [16, 39] = Inr False"
  using avgAmplitude_nonempty [of "[16, 39]"]
  by (simp add: detectSilence_def abs_total_pair int16le_def js_finite_def)

lemma new_fields:
  "silenceThreshold (VADDetector_new None None None) = 500"
  "silenceDurationMs (VADDetector_new None None None) = 1500"
  "sampleRate (VADDetector_new None None None) = 16000"
  "consecutiveSilence (VADDetector_new None None None) = 0"
  "isSpeaking (VADDetector_new None None None) = False"
  by (simp_all add: VADDetector_new_def)


lemma estimate_not_reached_second:
  assumes "0 < sampleRate this" "of_nat (k * length chunk) \<le> sampleRate this * 2"
    "1000 < silenceDurationMs this"
  shows "\<not> estimate_reached this k chunk"
proof -
  obtain v where "estimate_ms this (k * length chunk) 1 = Num v" "v \<le> 1000 * of_nat 1"
    using estimate_ms_seconds [of this "k * length chunk" 1] assms(1,2) by auto
  then show ?thesis
    using assms(3) estimate_ms_product [of this k "length chunk"] by (simp add: estimate_reached_def)
qed






lemma alternates_hd: "alternates False evs \<Longrightarrow> evs \<noteq> [] \<Longrightarrow> hd evs = SpeechStart"
proof (cases evs)
  case Nil
  assume "evs \<noteq> []"
  then show ?thesis using Nil by simp
next
  case (Cons e es)
  assume "alternates False evs"
  then show ?thesis using Cons by (cases e) simp_all
qed







lemma feed_error_odd:
  assumes "feed this cs = (this', evs, pushed, Some e)"
  shows "e = RangeError \<and> length pushed < length cs \<and> odd (length (cs ! length pushed))"
  using assms
proof (induction cs arbitrary: this this' evs pushed)
  case Nil
  then show ?case by simp
next
  case (Cons c cs)
  show ?case
  proof (cases "VADDetector_transform this c")
    case (Inl e')
    have o: "odd (length c)"
    proof (rule ccontr)
      assume "\<not> odd (length c)"
      then obtain b where "detectSilence this c = Inr b" using detectSilence_even by auto
      then show False using Inl by (cases b) (auto simp: transform_silent transform_loud split: if_splits)
    qed
    then have "VADDetector_transform this c = Inl RangeError"
      using detectSilence_odd transform_error by blast
    then show ?thesis using Cons.prems o by auto
  next
    case (Inr t)
    obtain this1 evs1 pushed1 where t: "t = (this1, evs1, pushed1)" by (cases t) auto
    obtain this2 evs2 pushed2 r2 where f: "feed this1 cs = (this2, evs2, pushed2, r2)"
      by (cases "feed this1 cs") auto
    have p1: "pushed1 = [c]" using transform_frame(4) Inr t by simp
    have e: "pushed = c # pushed2" "r2 = Some e" using Cons.prems Inr t f p1 by simp_all
    show ?thesis using Cons.IH [OF f [unfolded e(2)]] unfolding e by simp
  qed
qed

lemma concat_delivered: "concat (delivered pushed) = concat pushed"
  by (induction pushed) (simp_all add: delivered_def)

lemma delivered_nonempty: "\<forall>c \<in> set pushed. c \<noteq> [] \<Longrightarrow> delivered pushed = pushed"
  by (induction pushed) (simp_all add: delivered_def)

lemma feed_loud_silent_empty:
  "feed (VADDetector_new None None None) [[16, 39], [0, 0], []] =
     (VADDetector_new None None None\<lparr>isSpeaking := True, consecutiveSilence := 0\<rparr>,
      [SpeechStart], [[16, 39], [0, 0], []], None)"
proof -
  let ?d = "VADDetector_new None None None"
  let ?d1 = "?d\<lparr>isSpeaking := True, consecutiveSilence := 0\<rparr>"
  have z2: "[0, 0] = replicate 2 (0 :: byte)" by (simp add: numeral_2_eq_2)
  have s1: "detectSilence ?d [16, 39] = Inr False"
    by (rule detectSilence_loud_sample) (simp add: new_fields)
  have s2: "detectSilence ?d1 [0, 0] = Inr True"
    unfolding z2 using detectSilence_zeros [of 2 ?d1] by (simp add: new_fields)
  have t1: "VADDetector_transform ?d [16, 39] = Inr (?d1, [SpeechStart], [[16, 39]])"
    using transform_loud [OF s1] by (simp add: new_fields)
  have t2: "VADDetector_transform ?d1 [0, 0] = Inr (?d1\<lparr>consecutiveSilence := 1\<rparr>, [], [[0, 0]])"
    using transform_silent [OF s2] estimate_not_reached_second [of ?d1 1 "[0, 0]"]
    by (simp add: new_fields)
  have t3: "VADDetector_transform (?d1\<lparr>consecutiveSilence := 1\<rparr>) [] = Inr (?d1, [], [[]])"
    using transform_loud [OF detectSilence_empty, of "?d1\<lparr>consecutiveSilence := 1\<rparr>"] by simp
  show ?thesis
    by (simp only: feed.simps t1 t2 t3 sum.case prod.case fst_conv snd_conv append.simps)
qed

lemma feed_loud_odd_silent:
  "feed (VADDetector_new None None None) [[16, 39], [1], [0, 0]] =
     (VADDetector_new None None None\<lparr>isSpeaking := True, consecutiveSilence := 0\<rparr>,
      [SpeechStart], [[16, 39]], Some RangeError)"
proof -
  let ?d = "VADDetector_new None None None"
  let ?d1 = "?d\<lparr>isSpeaking := True, consecutiveSilence := 0\<rparr>"
  have s1: "detectSilence ?d [16, 39] = Inr False"
    by (rule detectSilence_loud_sample) (simp add: new_fields)
  have t1: "VADDetector_transform ?d [16, 39] = Inr (?d1, [SpeechStart], [[16, 39]])"
    using transform_loud [OF s1] by (simp add: new_fields)
  have t2: "VADDetector_transform ?d1 [1] = Inl RangeError"
    by (rule transform_error, rule detectSilence_odd) simp
  show ?thesis
    by (simp only: feed.simps t1 t2 sum.case prod.case fst_conv snd_conv append.simps)
qed

text \<open>
  Claim C6 as stated fails.  A chunk of zero bytes is pushed, and the readable side hands
  nothing downstream for it: of the three chunks written below two are delivered.  A chunk
  of odd length makes \<^verbatim>\<open>detectSilence\<close> raise before the push: neither that chunk nor
  the one written after it is forwarded.
\<close>

theorem forwarded_chunks_differ:
  "delivered (fst (snd (snd (feed (VADDetector_new None None None) [[16, 39], [0, 0], []]))))
     = [[16, 39], [0, 0]] \<and>
   fst (snd (snd (feed (VADDetector_new None None None) [[16, 39], [1], [0, 0]]))) = [[16, 39]] \<and>
   snd (snd (snd (feed (VADDetector_new None None None) [[16, 39], [1], [0, 0]]))) = Some RangeError"
  unfolding feed_loud_silent_empty feed_loud_odd_silent by (simp add: delivered_def)

text \<open>
  Claim C6, amended.  A call of \<^verbatim>\<open>_transform\<close> returns exactly for a chunk of even
  length, and then pushes exactly the chunk it was given, whatever the classification and
  the events; a chunk of odd length raises the \<^verbatim>\<open>RangeError\<close> of \<^verbatim>\<open>readInt16LE\<close> and
  nothing is pushed.  Over a sequence of chunks, the chunks pushed are a prefix of the
  chunks written, and all of them exactly when every chunk has even length; then the
  chunks delivered downstream are the chunks written without the empty ones, in order, so
  the bytes delivered are the bytes written, and the chunks delivered are the chunks
  written when none is empty.  Otherwise the run stops at the first chunk of odd length.
\<close>

theorem chunks_forwarded_unchanged:
  "(VADDetector_transform this chunk = Inr (this', evs, pushed) \<longrightarrow>
      pushed = [chunk] \<and> concat (delivered pushed) = chunk) \<and>
   (odd (length chunk) \<longrightarrow> VADDetector_transform this chunk = Inl RangeError) \<and>
   (even (length chunk) \<longrightarrow>
      (\<exists>this1 evs1. VADDetector_transform this chunk = Inr (this1, evs1, [chunk]))) \<and>
   (feed start cs = (this2, evs2, pushed2, r) \<longrightarrow>
      pushed2 = take (length pushed2) cs \<and>
      (r = None \<longleftrightarrow> (\<forall>c \<in> set cs. even (length c))) \<and>
      (r = None \<longrightarrow>
         pushed2 = cs \<and> delivered pushed2 = filter (\<lambda>c. c \<noteq> []) cs \<and>
         concat (delivered pushed2) = concat cs) \<and>
      (r = None \<and> (\<forall>c \<in> set cs. c \<noteq> []) \<longrightarrow> delivered pushed2 = cs) \<and>
      (r \<noteq> None \<longrightarrow>
         r = Some RangeError \<and> length pushed2 < length cs \<and> odd (length (cs ! length pushed2))))"
proof -
  have one: "pushed = [chunk] \<and> concat (delivered pushed) = chunk"
    if "VADDetector_transform this chunk = Inr (this', evs, pushed)"
    using transform_frame(4) [OF that] by (simp add: concat_delivered)
  have odd_chunk: "VADDetector_transform this chunk = Inl RangeError" if "odd (length chunk)"
    using that detectSilence_odd transform_error by blast
  have even_chunk: "\<exists>this1 evs1. VADDetector_transform this chunk = Inr (this1, evs1, [chunk])"
    if ev: "even (length chunk)"
  proof -
    obtain b where "detectSilence this chunk = Inr b" using ev detectSilence_even by auto
    then show ?thesis by (cases b) (auto simp: transform_silent transform_loud)
  qed
  have run: "pushed2 = take (length pushed2) cs \<and>
      (r = None \<longleftrightarrow> (\<forall>c \<in> set cs. even (length c))) \<and>
      (r = None \<longrightarrow>
         pushed2 = cs \<and> delivered pushed2 = filter (\<lambda>c. c \<noteq> []) cs \<and>
         concat (delivered pushed2) = concat cs) \<and>
      (r = None \<and> (\<forall>c \<in> set cs. c \<noteq> []) \<longrightarrow> delivered pushed2 = cs) \<and>
      (r \<noteq> None \<longrightarrow>
         r = Some RangeError \<and> length pushed2 < length cs \<and> odd (length (cs ! length pushed2)))"
    if f: "feed start cs = (this2, evs2, pushed2, r)"
  proof -
    note p = feed_pushed [OF f]
    have err: "e = RangeError \<and> length pushed2 < length cs \<and> odd (length (cs ! length pushed2))"
      if "r = Some e" for e
      using feed_error_odd [of start cs this2 evs2 pushed2 e] f that by simp
    have all_even: "\<forall>c \<in> set cs. even (length c)" if n: "r = None"
    proof
      fix c
      assume "c \<in> set cs"
      then obtain i where i: "i < length cs" "cs ! i = c" by (auto simp: in_set_conv_nth)
      have "pushed2 = cs" using p n by simp
      then have "pushed2 ! i = c" using i by simp
      obtain xs ys where s: "cs = xs @ c # ys" using \<open>c \<in> set cs\<close> by (auto simp: in_set_conv_decomp)
      show "even (length c)"
      proof (rule ccontr)
        assume o: "odd (length c)"
        obtain this1 evs1 pushed1 r1 where f1: "feed start xs = (this1, evs1, pushed1, r1)"
          by (cases "feed start xs") auto
        have t: "VADDetector_transform this1 c = Inl RangeError"
          using o detectSilence_odd transform_error by blast
        have "r \<noteq> None"
          using f unfolding s feed_append f1 using t by (cases r1) auto
        then show False using n by simp
      qed
    qed
    show ?thesis
      using p err all_even
      by (cases r)
         (auto simp: concat_delivered [unfolded delivered_def] delivered_nonempty [unfolded delivered_def]
            delivered_def)
  qed
  show ?thesis using one odd_chunk even_chunk run by blast
qed

theorem chunks_forwarded_unchanged_witness:
  "feed (VADDetector_new None None None) [[16, 39], [0, 0], []] =
     (VADDetector_new None None None\<lparr>isSpeaking := True, consecutiveSilence := 0\<rparr>,
      [SpeechStart], [[16, 39], [0, 0], []], None) \<and>
   delivered [[16, 39], [0, 0], []] = [[16, 39], [0, 0]] \<and>
   concat (delivered [[16, 39], [0, 0], []]) = [16, 39, 0, 0] \<and>
   VADDetector_transform (VADDetector_new None None None) [1] = Inl RangeError"
proof -
  let ?d = "VADDetector_new None None None"
  let ?cs = "[[16, 39], [0, 0], [] :: buffer]"
  let ?d1 = "?d\<lparr>isSpeaking := True, consecutiveSilence := 0\<rparr>"
  note w = chunks_forwarded_unchanged [where start = ?d and cs = ?cs and ?this2.0 = ?d1
      and ?evs2.0 = "[SpeechStart]" and ?pushed2.0 = ?cs and r = None and this = ?d
      and chunk = "[1]"]
  have d: "delivered ?cs = filter (\<lambda>c. c \<noteq> []) ?cs \<and> concat (delivered ?cs) = concat ?cs"
    using w feed_loud_silent_empty by blast
  have o: "VADDetector_transform ?d [1] = Inl RangeError" using w by simp
  show ?thesis using d o feed_loud_silent_empty by simp
qed

text \<open>
  Claim C7.  \<^verbatim>\<open>reset()\<close> emits nothing, sets \<open>isSpeaking\<close> to false and the counter to
  zero and changes no other field.  On the detector it leaves, the first event of any
  sequence of chunks is a speech-start, and a sequence of silent chunks, however long,
  emits nothing.
\<close>

theorem reset_discards_episode:
  "reset this = (this', evs) \<longrightarrow>
     evs = [] \<and> this' = this\<lparr>consecutiveSilence := 0, isSpeaking := False\<rparr> \<and>
     \<not> isSpeaking this' \<and> consecutiveSilence this' = 0 \<and>
     silenceThreshold this' = silenceThreshold this \<and>
     silenceDurationMs this' = silenceDurationMs this \<and>
     sampleRate this' = sampleRate this \<and>
     (feed this' cs = (this2, evs2, pushed2, r) \<longrightarrow>
        (evs2 \<noteq> [] \<longrightarrow> hd evs2 = SpeechStart) \<and>
        ((\<forall>c \<in> set cs. silent_chunk this' c) \<longrightarrow>
           evs2 = [] \<and> \<not> isSpeaking this2 \<and> consecutiveSilence this2 = length cs))"
proof
  assume a: "reset this = (this', evs)"
  then have r: "evs = []" "this' = this\<lparr>consecutiveSilence := 0, isSpeaking := False\<rparr>"
    by (simp_all add: reset_def)
  then have n: "\<not> isSpeaking this'" "consecutiveSilence this' = 0" by simp_all
  have run: "(evs2 \<noteq> [] \<longrightarrow> hd evs2 = SpeechStart) \<and>
        ((\<forall>c \<in> set cs. silent_chunk this' c) \<longrightarrow>
           evs2 = [] \<and> \<not> isSpeaking this2 \<and> consecutiveSilence this2 = length cs)"
    if f: "feed this' cs = (this2, evs2, pushed2, r)"
  proof -
    have "alternates False evs2" using feed_alternates [OF f] n(1) by simp
    then have h: "evs2 \<noteq> [] \<longrightarrow> hd evs2 = SpeechStart" using alternates_hd by blast
    have "evs2 = [] \<and> \<not> isSpeaking this2 \<and> consecutiveSilence this2 = length cs"
      if s: "\<forall>c \<in> set cs. silent_chunk this' c"
      using feed_all_silent [OF n(1) s] f n by auto
    then show ?thesis using h by blast
  qed
  show "evs = [] \<and> this' = this\<lparr>consecutiveSilence := 0, isSpeaking := False\<rparr> \<and>
     \<not> isSpeaking this' \<and> consecutiveSilence this' = 0 \<and>
     silenceThreshold this' = silenceThreshold this \<and>
     silenceDurationMs this' = silenceDurationMs this \<and>
     sampleRate this' = sampleRate this \<and>
     (feed this' cs = (this2, evs2, pushed2, r) \<longrightarrow>
        (evs2 \<noteq> [] \<longrightarrow> hd evs2 = SpeechStart) \<and>
        ((\<forall>c \<in> set cs. silent_chunk this' c) \<longrightarrow>
           evs2 = [] \<and> \<not> isSpeaking this2 \<and> consecutiveSilence this2 = length cs))"
    using r n run by simp
qed

theorem reset_discards_episode_witness:
  "fst (snd (feed (fst (reset (VADDetector_new None None None\<lparr>consecutiveSilence := 3, isSpeaking := True\<rparr>)))
      [replicate 48000 0, replicate 48000 0])) = [] \<and>
   fst (reset (VADDetector_new None None None\<lparr>consecutiveSilence := 3, isSpeaking := True\<rparr>)) =
     VADDetector_new None None None"
proof -
  let ?s = "VADDetector_new None None None\<lparr>consecutiveSilence := 3, isSpeaking := True\<rparr>"
  let ?d = "VADDetector_new None None None"
  let ?cs = "[replicate 48000 0, replicate 48000 0 :: buffer]"
  have r: "reset ?s = (?d, [])" by (simp add: reset_def VADDetector_new_def)
  have s: "\<forall>c \<in> set ?cs. silent_chunk ?d c"
    using detectSilence_zeros [of 48000 ?d] by (simp add: silent_chunk_def new_fields)
  obtain this2 evs2 pushed2 r2 where f: "feed ?d ?cs = (this2, evs2, pushed2, r2)"
    by (cases "feed ?d ?cs") auto
  have "evs2 = []"
    using reset_discards_episode [where this = ?s and this' = ?d and evs = "[]" and cs = ?cs
        and ?this2.0 = this2 and ?evs2.0 = evs2 and ?pushed2.0 = pushed2 and r = r2] r s f
    by blast
  then show ?thesis using r f by simp
qed

text \<open>
  Claim C10.  For a chunk of zero bytes the average is \<open>0 / 0\<close>, NaN; NaN is not less
  than the threshold, so the chunk is classified as not silent, and on a detector that is
  not speaking it emits speech-start and sets the counter to zero.
\<close>

theorem empty_chunk_is_speech:
  "js_divide 0 0 = NaN \<and> avgAmplitude [] = Inr NaN \<and>
   \<not> js_less NaN (silenceThreshold this) \<and> detectSilence this [] = Inr False \<and>
   (\<not> isSpeaking this \<longrightarrow>
      VADDetector_transform this [] =
        Inr (this\<lparr>isSpeaking := True, consecutiveSilence := 0\<rparr>, [SpeechStart], [[]]))"
  using transform_loud [OF detectSilence_empty, of this]
  by (simp add: js_divide_def avgAmplitude_empty detectSilence_empty)

theorem empty_chunk_is_speech_witness:
  "VADDetector_transform (VADDetector_new None None None\<lparr>consecutiveSilence := 7\<rparr>) [] =
     Inr (VADDetector_new None None None\<lparr>isSpeaking := True\<rparr>, [SpeechStart], [[]])"
  using empty_chunk_is_speech [of "VADDetector_new None None None\<lparr>consecutiveSilence := 7\<rparr>"]
  by (simp add: VADDetector_new_def)

section \<open>Properties of the upsampler\<close>

lemma resample_loop_unfold:
  "resample_loop input inputSamples ratio outputSamples i out0 =
     (if i < outputSamples then
        (case interpolate_at input inputSamples ratio i of
           Inl e \<Rightarrow> Inl e
         | Inr sample \<Rightarrow>
             (case writeInt16LE out0 (max (- 32768) (min 32767 sample)) (int i * 4) of
                Inl e \<Rightarrow> Inl e
              | Inr out1 \<Rightarrow>
                  (case writeInt16LE out1 (max (- 32768) (min 32767 sample)) (int i * 4 + 2) of
                     Inl e \<Rightarrow> Inl e
                   | Inr out2 \<Rightarrow> resample_loop input inputSamples ratio outputSamples (i + 1) out2)))
      else Inr out0)"
  by (subst resample_loop.simps, unfold interpolate_at_def Let_def, rule refl)

lemma error_eq: "(e :: error) = RangeError"
  by (cases e) simp

lemma resample_loop_fails:
  assumes "i \<le> j" "j < outputSamples" "interpolate_at input inputSamples ratio j = Inl e"
  shows "resample_loop input inputSamples ratio outputSamples i out0 = Inl RangeError"
  using assms(1)
proof (induction "j - i" arbitrary: i out0)
  case 0
  then have "i = j" by simp
  then show ?case using assms(2,3) by (subst resample_loop_unfold) (simp add: error_eq [of e])
next
  case (Suc d)
  then have lt: "i < j" by simp
  then have i: "i < outputSamples" using assms(2) by simp
  have d: "d = j - (i + 1)" using Suc.hyps(2) by linarith
  have le: "i + 1 \<le> j" using lt by simp
  note IH = Suc.hyps(1) [OF d le]
  show ?case
    using i IH
    by (subst resample_loop_unfold) (auto split: sum.splits intro: error_eq)
qed

lemma upsample_spec_range: "- 32768 \<le> upsample_spec input ratio i \<and> upsample_spec input ratio i \<le> 32767"
  by (simp add: upsample_spec_def Let_def)

lemma read_sample:
  assumes "0 \<le> k" "nat k < length buf div 2"
  shows "readInt16LE buf (k * 2) = Inr (pcm_sample buf (nat k))"
proof -
  have n0: "nat (k * 2) = 2 * nat k" "nat (k * 2 + 1) = 2 * nat k + 1" using assms(1) by linarith+
  have "k * 2 + 1 < int (length buf)" using assms by linarith
  then show ?thesis unfolding readInt16LE_def pcm_sample_def n0 using assms(1) by simp
qed

lemma interpolate_even:
  assumes "length input = 2 * m" "0 < ratio"
  shows "\<exists>v. interpolate_at input (real m) ratio i = Inr v \<and>
             max (- 32768) (min 32767 v) = upsample_spec input ratio i"
proof -
  define idx where "idx = \<lfloor>binary64 (real i / ratio)\<rfloor>"
  have "0 \<le> binary64 (real i / ratio)" using assms(2) by (intro binary64_nonneg) simp
  then have i0: "0 \<le> idx" unfolding idx_def by simp
  have half: "length input div 2 = m" using assms(1) by simp
  show ?thesis
  proof (cases "idx + 1 < int m")
    case True
    have n1: "nat (idx + 1) = nat idx + 1" using i0 by simp
    have r1: "readInt16LE input (idx * 2) = Inr (pcm_sample input (nat idx))"
      using read_sample [OF i0] i0 True half by simp
    have r2: "readInt16LE input ((idx + 1) * 2) = Inr (pcm_sample input (nat idx + 1))"
      using read_sample [of "idx + 1" input] i0 True half n1 by simp
    have c: "real_of_int (idx + 1) < real m" using True by linarith
    show ?thesis
      unfolding interpolate_at_def upsample_spec_def Let_def idx_def [symmetric] half
      using True c r1 r2 by (simp add: Math_round_def round_def)
  next
    case False
    have c: "\<not> real_of_int (idx + 1) < real m" using False by linarith
    show ?thesis
    proof (cases "idx < int m")
      case True
      have r1: "readInt16LE input (idx * 2) = Inr (pcm_sample input (nat idx))"
        using read_sample [OF i0] i0 True half by simp
      have c2: "real_of_int idx < real m" using True by linarith
      show ?thesis
        unfolding interpolate_at_def upsample_spec_def Let_def idx_def [symmetric] half
        using False c c2 True r1 by simp
    next
      case nlt: False
      have c2: "\<not> real_of_int idx < real m" using nlt by linarith
      show ?thesis
        unfolding interpolate_at_def upsample_spec_def Let_def idx_def [symmetric] half
        using False c c2 nlt by simp
    qed
  qed
qed

lemma write_in:
  assumes "- 32768 \<le> v" "v \<le> 32767" "k + 1 < length buf"
  shows "writeInt16LE buf v (int k) = Inr (buf[k := word_of_int v, k + 1 := word_of_int (v div 2 ^ 8)])"
  using assms by (simp add: writeInt16LE_def nat_add_distrib)

lemma resample_loop_inv:
  assumes "length input = 2 * m" "0 < ratio" "i \<le> n" "length out0 = 4 * n"
  shows "\<exists>out. resample_loop input (real m) ratio n i out0 = Inr out \<and> length out = 4 * n \<and>
           (\<forall>k < 4 * i. out ! k = out0 ! k) \<and>
           (\<forall>j. i \<le> j \<and> j < n \<longrightarrow>
              out ! (4 * j) = word_of_int (upsample_spec input ratio j) \<and>
              out ! (4 * j + 1) = word_of_int (upsample_spec input ratio j div 2 ^ 8) \<and>
              out ! (4 * j + 2) = word_of_int (upsample_spec input ratio j) \<and>
              out ! (4 * j + 3) = word_of_int (upsample_spec input ratio j div 2 ^ 8))"
  using assms(3,4)
proof (induction "n - i" arbitrary: i out0)
  case 0
  then have "i = n" by simp
  then show ?case using 0 by (subst resample_loop_unfold) auto
next
  case (Suc d)
  then have lt: "i < n" by simp
  define v where "v = upsample_spec input ratio i"
  have vr: "- 32768 \<le> v" "v \<le> 32767" using upsample_spec_range [of input ratio i] by (simp_all add: v_def)
  obtain s where s: "interpolate_at input (real m) ratio i = Inr s"
    "max (- 32768) (min 32767 s) = v"
    using interpolate_even [OF assms(1,2)] unfolding v_def by blast
  define out1 where "out1 = out0[4 * i := word_of_int v, 4 * i + 1 := word_of_int (v div 2 ^ 8)]"
  define out2 where "out2 = out1[4 * i + 2 := word_of_int v, 4 * i + 3 := word_of_int (v div 2 ^ 8)]"
  have o1: "int i * 4 = int (4 * i)" "int i * 4 + 2 = int (4 * i + 2)" by simp_all
  have w1: "writeInt16LE out0 v (int i * 4) = Inr out1"
    unfolding o1 out1_def using write_in [OF vr, of "4 * i" out0] lt Suc.prems(2) by simp
  have len1: "length out1 = 4 * n" using Suc.prems(2) by (simp add: out1_def)
  have w2: "writeInt16LE out1 v (int i * 4 + 2) = Inr out2"
    unfolding o1 out2_def using write_in [OF vr, of "4 * i + 2" out1] lt len1
    by (simp add: numeral_3_eq_3 add.commute)
  have len2: "length out2 = 4 * n" using len1 by (simp add: out2_def)
  have step: "resample_loop input (real m) ratio n i out0 =
              resample_loop input (real m) ratio n (i + 1) out2"
    using lt s w1 w2 by (subst resample_loop_unfold) simp
  have d: "d = n - (i + 1)" using Suc.hyps(2) by linarith
  have le: "i + 1 \<le> n" using lt by simp
  from Suc.hyps(1) [OF d le len2]
  obtain out where out: "resample_loop input (real m) ratio n (i + 1) out2 = Inr out"
    "length out = 4 * n" "\<forall>k < 4 * (i + 1). out ! k = out2 ! k"
    "\<forall>j. i + 1 \<le> j \<and> j < n \<longrightarrow>
              out ! (4 * j) = word_of_int (upsample_spec input ratio j) \<and>
              out ! (4 * j + 1) = word_of_int (upsample_spec input ratio j div 2 ^ 8) \<and>
              out ! (4 * j + 2) = word_of_int (upsample_spec input ratio j) \<and>
              out ! (4 * j + 3) = word_of_int (upsample_spec input ratio j div 2 ^ 8)"
    by blast
  have b4: "4 * i + 3 < length out0" using lt Suc.prems(2) by linarith
  have a: "out ! (4 * i) = word_of_int v" "out ! (4 * i + 1) = word_of_int (v div 2 ^ 8)"
    "out ! (4 * i + 2) = word_of_int v" "out ! (4 * i + 3) = word_of_int (v div 2 ^ 8)"
    using out(3) b4 by (simp_all add: out2_def out1_def)
  have b: "\<forall>k < 4 * i. out ! k = out0 ! k"
    using out(3) by (simp add: out2_def out1_def)
  have c: "\<forall>j. i \<le> j \<and> j < n \<longrightarrow>
              out ! (4 * j) = word_of_int (upsample_spec input ratio j) \<and>
              out ! (4 * j + 1) = word_of_int (upsample_spec input ratio j div 2 ^ 8) \<and>
              out ! (4 * j + 2) = word_of_int (upsample_spec input ratio j) \<and>
              out ! (4 * j + 3) = word_of_int (upsample_spec input ratio j div 2 ^ 8)"
  proof (intro allI impI)
    fix j assume j: "i \<le> j \<and> j < n"
    show "out ! (4 * j) = word_of_int (upsample_spec input ratio j) \<and>
              out ! (4 * j + 1) = word_of_int (upsample_spec input ratio j div 2 ^ 8) \<and>
              out ! (4 * j + 2) = word_of_int (upsample_spec input ratio j) \<and>
              out ! (4 * j + 3) = word_of_int (upsample_spec input ratio j div 2 ^ 8)"
    proof (cases "j = i")
      case True
      then show ?thesis using a by (simp add: v_def)
    next
      case False
      then show ?thesis using out(4) j by simp
    qed
  qed
  show ?case using step out(1,2) b c by simp
qed

lemma read_back:
  assumes "k + 1 < length out" "- 32768 \<le> v" "v \<le> 32767"
    "out ! k = word_of_int v" "out ! (k + 1) = word_of_int (v div 2 ^ 8)"
  shows "readInt16LE out (int k) = Inr v"
  using assms int16le_write [of v] by (simp add: readInt16LE_def nat_add_distrib)

lemma js_finite_eq_Num: "js_finite q = Num r \<Longrightarrow> r = q \<and> \<bar>q\<bar> < 2 ^ 1024"
  by (auto simp: js_finite_def split: if_splits)

lemma js_divide_eval:
  assumes "binary64 x = q" "b \<noteq> 0" "a / b = x" "\<bar>q\<bar> < 2 ^ 1024"
  shows "js_divide a b = Num q"
  using assms by (simp add: js_divide_def js_finite_Num)

lemma js_times_eval:
  assumes "binary64 x = q" "a * b = x" "\<bar>q\<bar> < 2 ^ 1024"
  shows "js_times (Num a) b = Num q"
  using assms by (simp add: js_finite_Num)

lemma resample_with_even:
  assumes "length input = 2 * m" "0 \<le> ratio" "js_times (Num ratio) (real m) = Num product"
  shows "\<exists>out. resample_with (Num ratio) input = Inr out \<and>
           length out = nat \<lfloor>product\<rfloor> * 4 \<and>
           (\<forall>i < nat \<lfloor>product\<rfloor>.
              readInt16LE out (int i * 4) = Inr (upsample_spec input ratio i) \<and>
              readInt16LE out (int i * 4 + 2) = Inr (upsample_spec input ratio i))"
proof -
  define n where "n = nat \<lfloor>product\<rfloor>"
  have s: "(of_nat (length input) :: real) / 2 = real m" using assms(1) by simp
  have pr: "product = binary64 (ratio * real m)"
    using assms(3) js_finite_eq_Num [of "binary64 (ratio * real m)" product] by simp
  have "0 \<le> product" unfolding pr using assms(2) by (intro binary64_nonneg) simp
  then have nn: "\<not> \<lfloor>product\<rfloor> < 0" by (simp add: not_less)
  have rw: "resample_with (Num ratio) input =
            resample_loop input (real m) ratio n 0 (Buffer_alloc (n * 4))"
    unfolding resample_with_def Let_def s using nn assms(3) by (simp add: n_def)
  show ?thesis
  proof (cases "ratio = 0")
    case True
    then have "n = 0" by (simp add: n_def pr)
    then show ?thesis unfolding rw n_def [symmetric]
      by (subst resample_loop_unfold) (simp add: Buffer_alloc_def)
  next
    case False
    then have pos: "0 < ratio" using assms(2) by simp
    from resample_loop_inv [OF assms(1) pos, of 0 n "Buffer_alloc (n * 4)"]
    obtain out where out: "resample_loop input (real m) ratio n 0 (Buffer_alloc (n * 4)) = Inr out"
      "length out = 4 * n"
      "\<forall>j. 0 \<le> j \<and> j < n \<longrightarrow>
              out ! (4 * j) = word_of_int (upsample_spec input ratio j) \<and>
              out ! (4 * j + 1) = word_of_int (upsample_spec input ratio j div 2 ^ 8) \<and>
              out ! (4 * j + 2) = word_of_int (upsample_spec input ratio j) \<and>
              out ! (4 * j + 3) = word_of_int (upsample_spec input ratio j div 2 ^ 8)"
      by (auto simp: Buffer_alloc_def)
    have rd: "readInt16LE out (int i * 4) = Inr (upsample_spec input ratio i) \<and>
              readInt16LE out (int i * 4 + 2) = Inr (upsample_spec input ratio i)" if i: "i < n" for i
    proof -
      have o1: "int i * 4 = int (4 * i)" "int i * 4 + 2 = int (4 * i + 2)" by simp_all
      have b: "4 * i + 1 < length out" "4 * i + 2 + 1 < length out" using i out(2) by linarith+
      have e: "out ! (4 * i) = word_of_int (upsample_spec input ratio i)"
        "out ! (4 * i + 1) = word_of_int (upsample_spec input ratio i div 2 ^ 8)"
        "out ! (4 * i + 2) = word_of_int (upsample_spec input ratio i)"
        "out ! (4 * i + 2 + 1) = word_of_int (upsample_spec input ratio i div 2 ^ 8)"
        using out(3) i by (simp_all add: numeral_3_eq_3 add.commute)
      have r: "- 32768 \<le> upsample_spec input ratio i" "upsample_spec input ratio i \<le> 32767"
        using upsample_spec_range [of input ratio i] by simp_all
      have p1: "readInt16LE out (int i * 4) = Inr (upsample_spec input ratio i)"
        by (subst o1(1)) (rule read_back [OF b(1) r e(1,2)])
      have p2: "readInt16LE out (int i * 4 + 2) = Inr (upsample_spec input ratio i)"
        by (subst o1(2)) (rule read_back [OF b(2) r e(3,4)])
      show ?thesis using p1 p2 by (rule conjI)
    qed
    show ?thesis unfolding rw n_def [symmetric] using out(1,2) rd by simp
  qed
qed

lemma upsample_spec_first:
  assumes "2 \<le> length input div 2"
  shows "upsample_spec input ratio 0 = pcm_sample input 0"
proof -
  have r: "- 32768 \<le> pcm_sample input 0" "pcm_sample input 0 \<le> 32767"
    using int16le_range [of "input ! 0" "input ! 1"] by (simp_all add: pcm_sample_def)
  have "\<bar>pcm_sample input 0\<bar> \<le> 2 ^ 53" using r by simp
  then have "binary64 (of_int (pcm_sample input 0)) = of_int (pcm_sample input 0)"
    by (rule binary64_of_int)
  then show ?thesis using assms r by (simp add: upsample_spec_def)
qed

lemma upsample_spec_eval:
  assumes "binary64 x = ip" "binary64 y = fr" "binary64 z = t" "binary64 w = s"
    "of_nat i / ratio = x" "\<lfloor>ip\<rfloor> = idx" "0 \<le> idx" "idx + 1 < int (length input div 2)"
    "ip - of_int idx = y"
    "fr * (of_int (pcm_sample input (nat idx + 1)) - of_int (pcm_sample input (nat idx))) = z"
    "of_int (pcm_sample input (nat idx)) + t = w"
    "round s = v" "- 32768 \<le> v" "v \<le> 32767"
  shows "upsample_spec input ratio i = v"
  unfolding upsample_spec_def Let_def assms(5) assms(1) assms(6) assms(9) assms(2) assms(10)
    assms(3) assms(11) assms(4) assms(12)
  using assms(8,13,14) by simp

text \<open>
  Claim C3.  For a mono buffer (an even number of bytes), a positive input rate and a
  ratio and a product \<open>inputSamples * ratio\<close> that are finite doubles, with
  \<open>ratio = outputRate / inputRate\<close> as the code rounds it, the upsampler returns
  \<open>floor(inputSamples * ratio)\<close> stereo frames of 4 bytes; both channels of frame
  \<open>i\<close> hold the sample the specification describes, interpolated, rounded and clamped,
  every operation in the arithmetic of doubles.  \<^verbatim>\<open>resampleAndStereo\<close> of a converter
  built for the input rate returns the same buffer as \<^verbatim>\<open>resamplePCM\<close> to 48000 Hz.  An
  empty input gives an empty output, and 10 samples from 16000 Hz to 48000 Hz give 120
  bytes whose first frame holds input sample 0 on both channels.
\<close>

theorem resample_correct:
  assumes "even (length input)" "0 < inputRate" "0 \<le> outputRate"
    "js_divide outputRate inputRate = Num ratio"
    "js_times (Num ratio) (of_nat (length input) / 2) = Num product"
  shows "\<exists>out. resamplePCM input inputRate outputRate = Inr out \<and>
           length out = nat \<lfloor>product\<rfloor> * 4 \<and>
           (\<forall>i < nat \<lfloor>product\<rfloor>.
              readInt16LE out (int i * 4) = Inr (upsample_spec input ratio i) \<and>
              readInt16LE out (int i * 4 + 2) = Inr (upsample_spec input ratio i)) \<and>
           (outputRate = 48000 \<longrightarrow>
              resampleAndStereo (PCMToOpusConverter_new (Some inputRate)) input = Inr out) \<and>
           (input = [] \<longrightarrow> out = []) \<and>
           (length input = 20 \<and> inputRate = 16000 \<and> outputRate = 48000 \<longrightarrow>
              length out = 120 \<and> readInt16LE out 0 = readInt16LE input 0 \<and>
              readInt16LE out 2 = readInt16LE input 0)"
proof -
  obtain m where m: "length input = 2 * m" using assms(1) by (auto elim: evenE)
  have s: "(of_nat (length input) :: real) / 2 = real m" using m by simp
  have rq: "ratio = binary64 (outputRate / inputRate)"
    using assms(2,4) js_finite_eq_Num [of "binary64 (outputRate / inputRate)" ratio]
    by (simp add: js_divide_def)
  have r0: "0 \<le> ratio" unfolding rq using assms(2,3) by (intro binary64_nonneg) simp
  have pq: "product = binary64 (ratio * real m)"
    using assms(5) js_finite_eq_Num [of "binary64 (ratio * real m)" product] unfolding s by simp
  from resample_with_even [OF m r0 assms(5) [unfolded s]]
  obtain out where out: "resample_with (Num ratio) input = Inr out"
    "length out = nat \<lfloor>product\<rfloor> * 4"
    "\<forall>i < nat \<lfloor>product\<rfloor>.
              readInt16LE out (int i * 4) = Inr (upsample_spec input ratio i) \<and>
              readInt16LE out (int i * 4 + 2) = Inr (upsample_spec input ratio i)"
    by blast
  have a: "resamplePCM input inputRate outputRate = Inr out"
    using out(1) by (simp add: resamplePCM_def assms(4))
  have b: "resampleAndStereo (PCMToOpusConverter_new (Some inputRate)) input = Inr out"
    if "outputRate = 48000"
    using out(1) assms(4) that by (simp add: resampleAndStereo_def PCMToOpusConverter_new_def)
  have c: "out = []" if "input = []"
  proof -
    have "m = 0" using m that by simp
    then have "product = 0" by (simp add: pq)
    then show ?thesis using out(2) by simp
  qed
  have d: "length out = 120 \<and> readInt16LE out 0 = readInt16LE input 0 \<and>
              readInt16LE out 2 = readInt16LE input 0"
    if h: "length input = 20 \<and> inputRate = 16000 \<and> outputRate = 48000"
  proof -
    have m10: "m = 10" using h m by simp
    have r3: "ratio = 3" using h by (simp add: rq)
    have p30: "product = 30" by (simp add: pq r3 m10)
    have n30: "nat \<lfloor>product\<rfloor> = 30" by (simp add: p30)
    have l: "length out = 120" using out(2) by (simp add: n30)
    have "readInt16LE out (int 0 * 4) = Inr (upsample_spec input ratio 0) \<and>
              readInt16LE out (int 0 * 4 + 2) = Inr (upsample_spec input ratio 0)"
      using out(3) [rule_format, of 0] n30 by simp
    moreover have "upsample_spec input ratio 0 = pcm_sample input 0"
      by (rule upsample_spec_first) (simp add: h)
    moreover have "readInt16LE input 0 = Inr (pcm_sample input 0)"
      using read_sample [of 0 input] h by simp
    ultimately show ?thesis using l by simp
  qed
  show ?thesis using a out(2,3) b c d by blast
qed

theorem resample_correct_witness:
  "\<exists>out. resamplePCM [0, 0, 0, 0, 160, 0] 22050 48000 = Inr out \<and> length out = 24 \<and>
         readInt16LE out 12 = Inr 60 \<and> readInt16LE out 14 = Inr 60 \<and>
         resampleAndStereo (PCMToOpusConverter_new (Some 22050)) [0, 0, 0, 0, 160, 0] = Inr out"
proof -
  let ?b = "[0, 0, 0, 0, 160, 0 :: byte]"
  let ?ratio = "4901877145437275 / 2 ^ 51 :: real"
  let ?product = "7352815718155912 / 2 ^ 50 :: real"
  have e: "even (length ?b)" by simp
  have q: "binary64 (48000 / 22050) = ?ratio"
    by (subst binary64_eval_frac [where n = 51]) (simp_all add: round_half_even_def)
  have jd: "js_divide 48000 22050 = Num ?ratio"
    by (rule js_divide_eval [OF q]) simp_all
  have p: "binary64 (4901877145437275 * 3 / 2 ^ 51) = ?product"
    by (subst binary64_eval_frac [where n = 50]) (simp_all add: round_half_even_def)
  have jt: "js_times (Num ?ratio) (of_nat (length ?b) / 2) = Num ?product"
    by (rule js_times_eval [OF p]) simp_all
  have n: "nat \<lfloor>?product\<rfloor> = 6" by simp
  have pos: "binary64 (3 * 2 ^ 51 / 4901877145437275) = 6206523236469964 / 2 ^ 52"
    by (subst binary64_eval_frac [where n = 52]) (simp_all add: round_half_even_def)
  have frac: "binary64 (6206523236469964 / 2 ^ 52 - 1) = 6811694436397872 / 2 ^ 54"
    by (subst binary64_eval_frac [where n = 54]) (simp_all add: round_half_even_def)
  have t: "binary64 (6811694436397872 * 160 / 2 ^ 54) = 8514618045497340 / 2 ^ 47"
    by (subst binary64_eval_frac [where n = 47]) (simp_all add: round_half_even_def)
  have s: "binary64 (8514618045497340 / 2 ^ 47) = 8514618045497340 / 2 ^ 47"
    by (subst binary64_eval_frac [where n = 47]) (simp_all add: round_half_even_def)
  have u: "upsample_spec ?b ?ratio 3 = 60"
    by (rule upsample_spec_eval [OF pos frac t s, where idx = 1])
       (simp_all add: pcm_sample_def int16le_def round_def)
  from resample_correct [OF e _ _ jd jt] obtain out where
    o: "resamplePCM ?b 22050 48000 = Inr out" "length out = 6 * 4"
    "\<forall>i < 6. readInt16LE out (int i * 4) = Inr (upsample_spec ?b ?ratio i) \<and>
             readInt16LE out (int i * 4 + 2) = Inr (upsample_spec ?b ?ratio i)"
    "resampleAndStereo (PCMToOpusConverter_new (Some 22050)) ?b = Inr out"
    unfolding n by auto
  have "readInt16LE out (int 3 * 4) = Inr 60 \<and> readInt16LE out (int 3 * 4 + 2) = Inr 60"
    using o(3) [rule_format, of 3] u by simp
  then show ?thesis using o by simp
qed
section \<open>Buffers whose length is not a multiple of the sample stride\<close>

text \<open>
  \<^verbatim>\<open>downsampleAndMono\<close> divides a quarter of the length by 3, which a double rounds.
  Below \<open>2 ^ 50\<close> bytes the floor of the rounded quotient is the floor of the quotient,
  which is why the model of \<^verbatim>\<open>downsampleAndMono\<close> writes no rounding there.
\<close>

lemma binary64_sixteenths:
  assumes "0 < k" "k < 2 ^ 53"
  shows "binary64 (of_int k / 16) = of_int k / 16"
  using binary64_representable_pos [OF assms, of "- 4"] by (simp add: powr_minus field_simps)

lemma floor_binary64_thirds:
  assumes "n < 2 ^ 50"
  shows "\<lfloor>binary64 ((of_nat n / 4) / 3)\<rfloor> = \<lfloor>((of_nat n :: real) / 4) / 3\<rfloor>"
proof -
  define k where "k = n div 12"
  define x :: real where "x = (of_nat n / 4) / 3"
  have n: "n = 12 * k + n mod 12" by (simp add: k_def)
  have "n mod 12 < 12" by simp
  then have "real (n mod 12) \<le> 11" by linarith
  then have "real n \<le> 12 * real k + 11"
    using n by (metis add_left_mono of_nat_add of_nat_mult of_nat_numeral)
  then have up: "x \<le> of_int (16 * int k + 15) / 16" by (simp add: x_def field_simps)
  have "12 * real k \<le> real n"
    using n by (metis le_add1 of_nat_le_iff of_nat_mult of_nat_numeral)
  then have lo: "real k \<le> x" by (simp add: x_def field_simps)
  have kb: "k < 2 ^ 49"
  proof -
    have "12 * k \<le> n" using n by linarith
    moreover have "(2 :: nat) ^ 50 = 2 * 2 ^ 49" by simp
    ultimately show ?thesis using assms by linarith
  qed
  have k53: "k \<le> 2 ^ 53"
  proof -
    have "(2 :: nat) ^ 49 \<le> 2 ^ 53" by simp
    then show ?thesis using kb by linarith
  qed
  have s53: "16 * int k + 15 < 2 ^ 53"
  proof -
    have "int k < 2 ^ 49" using kb by (metis of_nat_less_iff of_nat_numeral of_nat_power)
    moreover have "(2 :: int) ^ 53 = 16 * 2 ^ 49" by simp
    ultimately show ?thesis by linarith
  qed
  have "binary64 (real k) \<le> binary64 x" using lo by (intro binary64_mono) simp_all
  then have l: "real k \<le> binary64 x" using binary64_of_nat [OF k53] by simp
  have "0 \<le> x" by (simp add: x_def)
  then have "binary64 x \<le> binary64 (of_int (16 * int k + 15) / 16)"
    using up by (intro binary64_mono)
  then have "binary64 x \<le> of_int (16 * int k + 15) / 16"
    using binary64_sixteenths [OF _ s53] by simp
  then have u: "binary64 x < real k + 1" by (simp add: field_simps)
  have "\<lfloor>binary64 x\<rfloor> = int k" using l u by (intro floor_unique) simp_all
  moreover have "nat \<lfloor>x\<rfloor> = k" unfolding x_def k_def by (rule outputSamples_div)
  moreover have "0 \<le> \<lfloor>x\<rfloor>" using \<open>0 \<le> x\<close> by simp
  ultimately show ?thesis unfolding x_def by linarith
qed

lemma frame_mono_take:
  assumes "j < length buffer div 12"
  shows "frame_mono (take (12 * (length buffer div 12)) buffer) j = frame_mono buffer j"
proof -
  have "12 * j + 3 < 12 * (length buffer div 12)" using assms by linarith
  then show ?thesis by (simp add: frame_mono_def)
qed

lemma downsampleAndMono_take:
  "downsampleAndMono (take (12 * (length buffer div 12)) buffer) = downsampleAndMono buffer"
proof -
  define n where "n = length buffer div 12"
  define t where "t = take (12 * n) buffer"
  have "12 * n \<le> length buffer" by (simp add: n_def)
  then have lt: "length t = 12 * n" by (simp add: t_def)
  then have nt: "length t div 12 = n" by simp
  obtain out where out: "downsampleAndMono buffer = Inr out" "length out = 2 * n"
    "\<forall>j < n. out ! (2 * j) = word_of_int (frame_mono buffer j) \<and>
             out ! (2 * j + 1) = word_of_int (frame_mono buffer j div 2 ^ 8)"
    using downsampleAndMono_result [of buffer] unfolding n_def by blast
  obtain out' where out': "downsampleAndMono t = Inr out'" "length out' = 2 * n"
    "\<forall>j < n. out' ! (2 * j) = word_of_int (frame_mono t j) \<and>
             out' ! (2 * j + 1) = word_of_int (frame_mono t j div 2 ^ 8)"
    using downsampleAndMono_result [of t] unfolding nt by blast
  have "out' = out"
  proof (rule nth_equalityI)
    show "length out' = length out" using out(2) out'(2) by simp
  next
    fix i
    assume "i < length out'"
    then have i: "i div 2 < n" using out'(2) by linarith
    have fm: "frame_mono t (i div 2) = frame_mono buffer (i div 2)"
      unfolding t_def n_def using i frame_mono_take [of "i div 2" buffer] by (simp add: n_def)
    show "out' ! i = out ! i"
    proof (cases "even i")
      case True
      then have "i = 2 * (i div 2)" by simp
      then show ?thesis using out(3) out'(3) i fm by metis
    next
      case False
      then have "i = 2 * (i div 2) + 1" by (simp add: odd_two_times_div_two_succ)
      then show ?thesis using out(3) out'(3) i fm by metis
    qed
  qed
  then show ?thesis using out(1) out'(1) unfolding t_def n_def by simp
qed

lemma resample_default_odd:
  assumes "odd (length buffer)" "length buffer < 2 ^ 50"
  shows "resampleAndStereo (PCMToOpusConverter_new None) buffer = Inl RangeError"
proof -
  obtain m where m: "length buffer = 2 * m + 1" using assms(1) by (auto elim: oddE)
  have s: "(of_nat (length buffer) :: real) / 2 = real m + 1 / 2" using m by simp
  have mb: "m < 2 ^ 50" using assms(2) m by linarith
  have m53: "m \<le> 2 ^ 53"
  proof -
    have "(2 :: nat) ^ 50 \<le> 2 ^ 53" by simp
    then show ?thesis using mb by linarith
  qed
  have k53: "6 * int m + 3 < 2 ^ 53"
  proof -
    have "int m < 2 ^ 50" using mb by (metis of_nat_less_iff of_nat_numeral of_nat_power)
    moreover have "(2 :: int) ^ 53 = 8 * 2 ^ 50" by simp
    ultimately show ?thesis by linarith
  qed
  have hv: "binary64 (of_int (6 * int m + 3) / 2) = of_int (6 * int m + 3) / 2"
    by (rule binary64_halves [OF _ k53]) simp
  have e: "3 * (real m + 1 / 2) = of_int (6 * int m + 3) / 2" by simp
  have big: "\<bar>real_of_int (6 * int m + 3) / 2\<bar> < 2 ^ 1024"
  proof -
    have "real_of_int (6 * int m + 3) < real_of_int (2 ^ 53)" using k53 by (simp only: of_int_less_iff)
    moreover have "real_of_int (2 ^ 53) < 2 ^ 1024" by simp
    ultimately show ?thesis by simp
  qed
  have jt: "js_times (Num 3) (real m + 1 / 2) = Num (of_int (6 * int m + 3) / 2)"
    by (rule js_times_eval [OF hv e big])
  have f2: "\<lfloor>real_of_int (6 * int m + 3) / 2\<rfloor> = 3 * int m + 1"
    by (intro floor_unique) simp_all
  have n3: "nat (3 * int m + 1) = 3 * m + 1" by linarith
  have rr: "resampleRatio (PCMToOpusConverter_new None) = Num 3"
    by (simp add: PCMToOpusConverter_new_def js_divide_def js_finite_def)
  have "resample_with (Num 3) buffer =
        resample_loop buffer (real m + 1 / 2) 3 (3 * m + 1) 0 (Buffer_alloc ((3 * m + 1) * 4))"
    unfolding resample_with_def Let_def s jt number.case f2 n3 by simp
  then have rw: "resampleAndStereo (PCMToOpusConverter_new None) buffer =
        resample_loop buffer (real m + 1 / 2) 3 (3 * m + 1) 0 (Buffer_alloc ((3 * m + 1) * 4))"
    by (simp only: resampleAndStereo_def rr)
  have ip: "binary64 (real (3 * m) / 3) = real m" using binary64_of_nat [OF m53] by simp
  have "readInt16LE buffer (int m * 2) = Inl RangeError"
    using m by (simp add: readInt16LE_def)
  then have "interpolate_at buffer (real m + 1 / 2) 3 (3 * m) = Inl RangeError"
    unfolding interpolate_at_def Let_def ip by simp
  from resample_loop_fails [OF _ _ this, of 0 "3 * m + 1"]
  show ?thesis unfolding rw by simp
qed

text \<open>
  Claim C1 as stated fails: \<^verbatim>\<open>downsampleAndMono\<close> accepts a stereo buffer of 13 bytes
  and returns one sample, and \<^verbatim>\<open>resampleAndStereo\<close> of a converter for 96000 Hz accepts
  a mono buffer of 5 bytes and returns one frame.
\<close>

theorem malformed_length_accepted:
  "length (replicate 13 0 :: buffer) mod 4 \<noteq> 0 \<and>
   downsampleAndMono (replicate 13 0) = Inr [0, 0] \<and>
   length [0, 0, 0, 0, 0 :: byte] mod 2 \<noteq> 0 \<and>
   resampleAndStereo (PCMToOpusConverter_new (Some 96000)) [0, 0, 0, 0, 0] = Inr [0, 0, 0, 0]"
proof -
  have n: "nat \<lfloor>(of_nat (length (replicate 13 0 :: buffer)) / 4 :: real) / 3\<rfloor> = 1" by simp
  have r: "readInt16LE (replicate 13 0) 0 = Inr 0" "readInt16LE (replicate 13 0) 2 = Inr 0"
    by (simp_all add: readInt16LE_def int16le_def)
  have w: "writeInt16LE [0, 0] 0 0 = Inr [0, 0]" by (simp add: writeInt16LE_def)
  have l1: "downsample_loop (replicate 13 0) (Suc 0) (Suc 0) [0, 0] = Inr [0, 0]"
    by (subst downsample_loop.simps) simp
  have l0: "downsample_loop (replicate 13 0) (Suc 0) 0 [0, 0] = Inr [0, 0]"
    by (subst downsample_loop.simps) (simp add: r w l1 mono_mix_def)
  have d: "downsampleAndMono (replicate 13 0) = Inr [0, 0]"
    unfolding downsampleAndMono_def Let_def n using l0 by (simp add: Buffer_alloc_def numeral_2_eq_2)
  let ?b = "[0, 0, 0, 0, 0 :: byte]"
  have h: "binary64 (1 / 2) = 1 / 2" using binary64_halves [of 1] by simp
  have q: "binary64 (5 / 4) = 5 / 4" using binary64_quarters [of 5] by simp
  have jd: "js_divide 48000 96000 = Num (1 / 2)"
    by (rule js_divide_eval [OF h]) simp_all
  have jt: "js_times (Num (1 / 2)) (of_nat (length ?b) / 2) = Num (5 / 4)"
    by (rule js_times_eval [OF q]) simp_all
  have i0: "interpolate_at ?b (5 / 2) (1 / 2) 0 = Inr 0"
    by (simp add: interpolate_at_def readInt16LE_def int16le_def Math_round_def)
  have w1: "writeInt16LE [0, 0, 0, 0] 0 0 = Inr [0, 0, 0, 0]"
    "writeInt16LE [0, 0, 0, 0] 0 2 = Inr [0, 0, 0, 0]"
    by (simp_all add: writeInt16LE_def)
  have r1: "resample_loop ?b (5 / 2) (1 / 2) (Suc 0) (Suc 0) [0, 0, 0, 0] = Inr [0, 0, 0, 0]"
    by (subst resample_loop_unfold) simp
  have r0: "resample_loop ?b (5 / 2) (1 / 2) (Suc 0) 0 [0, 0, 0, 0] = Inr [0, 0, 0, 0]"
    by (subst resample_loop_unfold) (simp add: i0 w1 r1)
  have "resample_with (Num (1 / 2)) ?b = Inr [0, 0, 0, 0]"
    unfolding resample_with_def Let_def jt number.case
    using r0 by (simp add: Buffer_alloc_def numeral_eq_Suc)
  then have "resampleAndStereo (PCMToOpusConverter_new (Some 96000)) ?b = Inr [0, 0, 0, 0]"
    by (simp add: resampleAndStereo_def PCMToOpusConverter_new_def jd)
  then show ?thesis using d by simp
qed

text \<open>
  Claim C1, amended.  No operation checks the length of its buffer.
  \<^verbatim>\<open>downsampleAndMono\<close> never raises: for every length it returns
  \<open>2 * floor(length / 12)\<close> bytes, sample \<open>j\<close> of the output is the mono mix of the
  stereo frame at byte \<open>12 * j\<close>, and the bytes after the last full group of three frames
  are ignored: the result is that of the buffer cut after that group.  On a buffer of odd
  length \<^verbatim>\<open>detectSilence\<close>, and with it \<^verbatim>\<open>_transform\<close>, raises the RangeError of the
  read of the incomplete last sample, and so does \<^verbatim>\<open>resampleAndStereo\<close> of a converter
  with the default input rate, for a buffer of less than \<open>2 ^ 50\<close> bytes.
\<close>

theorem malformed_length_behaviour:
  "(\<exists>out. downsampleAndMono buffer = Inr out \<and> length out = 2 * (length buffer div 12) \<and>
      (\<forall>j < length buffer div 12.
         out ! (2 * j) = word_of_int (frame_mono buffer j) \<and>
         out ! (2 * j + 1) = word_of_int (frame_mono buffer j div 2 ^ 8) \<and>
         readInt16LE out (int j * 2) = Inr (frame_mono buffer j)) \<and>
      downsampleAndMono (take (12 * (length buffer div 12)) buffer) = Inr out) \<and>
   (odd (length buffer) \<longrightarrow>
      detectSilence this buffer = Inl RangeError \<and>
      VADDetector_transform this buffer = Inl RangeError \<and>
      (length buffer < 2 ^ 50 \<longrightarrow>
         resampleAndStereo (PCMToOpusConverter_new None) buffer = Inl RangeError))"
proof -
  obtain out where out: "downsampleAndMono buffer = Inr out"
    "length out = 2 * (length buffer div 12)"
    "\<forall>j < length buffer div 12.
         out ! (2 * j) = word_of_int (frame_mono buffer j) \<and>
         out ! (2 * j + 1) = word_of_int (frame_mono buffer j div 2 ^ 8)"
    using downsampleAndMono_result [of buffer] by blast
  have rd: "readInt16LE out (int j * 2) = Inr (frame_mono buffer j)"
    if j: "j < length buffer div 12" for j
  proof -
    have r: "- 32768 \<le> frame_mono buffer j" "frame_mono buffer j \<le> 32767"
      using frame_mono_range [of buffer j] by simp_all
    show ?thesis using sample_read_back [OF out(2) j r] out(3) j by blast
  qed
  have tk: "downsampleAndMono (take (12 * (length buffer div 12)) buffer) = Inr out"
    using downsampleAndMono_take [of buffer] out(1) by simp
  have od: "detectSilence this buffer = Inl RangeError \<and>
      VADDetector_transform this buffer = Inl RangeError \<and>
      (length buffer < 2 ^ 50 \<longrightarrow>
         resampleAndStereo (PCMToOpusConverter_new None) buffer = Inl RangeError)"
    if "odd (length buffer)"
    using that detectSilence_odd [of buffer this] transform_error [of this buffer RangeError]
      resample_default_odd [of buffer]
    by blast
  show ?thesis using out rd tk od by blast
qed

theorem malformed_length_behaviour_witness:
  "downsampleAndMono [1, 0, 2] = Inr [] \<and>
   detectSilence (VADDetector_new None None None) [1, 0, 2] = Inl RangeError \<and>
   resampleAndStereo (PCMToOpusConverter_new None) [1, 0, 2] = Inl RangeError \<and>
   downsampleAndMono (replicate 13 0) = downsampleAndMono (replicate 12 0)"
proof -
  have a: "downsampleAndMono [1, 0, 2] = Inr [] \<and>
      detectSilence (VADDetector_new None None None) [1, 0, 2] = Inl RangeError \<and>
      resampleAndStereo (PCMToOpusConverter_new None) [1, 0, 2] = Inl RangeError"
    using malformed_length_behaviour [of "[1, 0, 2]" "VADDetector_new None None None"]
    by auto
  have "downsampleAndMono (take (12 * (length (replicate 13 (0 :: byte)) div 12)) (replicate 13 0))
        = downsampleAndMono (replicate 13 0)"
    using malformed_length_behaviour [of "replicate 13 0" "VADDetector_new None None None"]
    by auto
  then have "downsampleAndMono (replicate 13 0) = downsampleAndMono (replicate 12 0)"
    by simp
  then show ?thesis using a by simp
qed
section \<open>Properties of the session buffers\<close>

lemma on_vad_data_run:
  assumes "audioBuffers st (bufferKey_of guildId userId) = Some b"
  shows "\<exists>b'. audioBuffers (foldl (\<lambda>s (t, chunk). on_vad_data s guildId userId t chunk) st tcs)
                 (bufferKey_of guildId userId) = Some b' \<and>
              chunks b' = chunks b @ map snd tcs \<and>
              ctx (foldl (\<lambda>s (t, chunk). on_vad_data s guildId userId t chunk) st tcs) = ctx st"
  using assms
proof (induction tcs arbitrary: st b)
  case Nil
  then show ?case by simp
next
  case (Cons tc tcs)
  obtain t chunk where tc: "tc = (t, chunk)" by (cases tc) auto
  let ?st1 = "on_vad_data st guildId userId t chunk"
  let ?b1 = "b\<lparr>chunks := chunks b @ [chunk], lastChunkTime := t\<rparr>"
  have a: "audioBuffers ?st1 (bufferKey_of guildId userId) = Some ?b1" "ctx ?st1 = ctx st"
    using Cons.prems by (simp_all add: on_vad_data_def)
  from Cons.IH [OF a(1)] a(2) show ?case by (simp add: tc)
qed

text \<open>
  Claim C8 as stated fails.  With no STT provider the chunks of the key are concatenated
  and the entry is removed, and nothing is handed over: the audio is lost.  With no plugin
  context the entry is left in place.
\<close>

theorem speech_end_without_stt_provider:
  "transcribeUserSpeech
     \<lparr>ctx = Some \<lparr>getSTT = False\<rparr>,
      audioBuffers = [bufferKey_of ''g'' ''u'' \<mapsto>
        \<lparr>chunks = [[1, 0]], startTime = 0, lastChunkTime = 0, silenceCount = 0\<rparr>]\<rparr> ''g'' ''u'' =
     (\<lparr>ctx = Some \<lparr>getSTT = False\<rparr>, audioBuffers = Map.empty\<rparr>, None) \<and>
   transcribeUserSpeech
     \<lparr>ctx = None,
      audioBuffers = [bufferKey_of ''g'' ''u'' \<mapsto>
        \<lparr>chunks = [[1, 0]], startTime = 0, lastChunkTime = 0, silenceCount = 0\<rparr>]\<rparr> ''g'' ''u'' =
     (\<lparr>ctx = None,
       audioBuffers = [bufferKey_of ''g'' ''u'' \<mapsto>
         \<lparr>chunks = [[1, 0]], startTime = 0, lastChunkTime = 0, silenceCount = 0\<rparr>]\<rparr>, None)"
  by (simp add: transcribeUserSpeech_def)

text \<open>
  Claim C8, amended.  \<^verbatim>\<open>transcribeUserSpeech\<close> changes nothing and makes no call when
  the plugin context is not set, when the key has no entry, or when its entry holds no
  chunk.  With the context set and at least one chunk it removes the entry of the key; it
  then calls \<^verbatim>\<open>stt.transcribe\<close>, with the concatenation of the chunks and the options
  \<^verbatim>\<open>pcm_s16le\<close>, 16000 and \<^verbatim>\<open>en\<close>, exactly when an STT provider is present.  The
  chunks of an entry are the chunks the \<^verbatim>\<open>data\<close> handler received since the entry was
  created, in the order of arrival.
\<close>

theorem transcribeUserSpeech_drains_buffer:
  "(ctx st = None \<longrightarrow> transcribeUserSpeech st guildId userId = (st, None)) \<and>
   (audioBuffers st (bufferKey_of guildId userId) = None \<longrightarrow>
      transcribeUserSpeech st guildId userId = (st, None)) \<and>
   (audioBuffers st (bufferKey_of guildId userId) = Some buffer \<and> chunks buffer = [] \<longrightarrow>
      transcribeUserSpeech st guildId userId = (st, None)) \<and>
   (ctx st = Some c \<and>
    audioBuffers st (bufferKey_of guildId userId) = Some buffer \<and> chunks buffer \<noteq> [] \<longrightarrow>
      transcribeUserSpeech st guildId userId =
        (st\<lparr>audioBuffers := (audioBuffers st)(bufferKey_of guildId userId := None)\<rparr>,
         if getSTT c
         then Some (concat (chunks buffer),
                 \<lparr>opt_format = ''pcm_s16le'', opt_sampleRate = 16000, opt_language = ''en''\<rparr>)
         else None)) \<and>
   (ctx st = Some c \<and> tcs \<noteq> [] \<longrightarrow>
      snd (transcribeUserSpeech
            (foldl (\<lambda>s (t, chunk). on_vad_data s guildId userId t chunk)
               (start_buffer st guildId userId now now') tcs) guildId userId) =
        (if getSTT c
         then Some (concat (map snd tcs),
                 \<lparr>opt_format = ''pcm_s16le'', opt_sampleRate = 16000, opt_language = ''en''\<rparr>)
         else None))"
proof -
  have n1: "transcribeUserSpeech st guildId userId = (st, None)" if "ctx st = None"
    using that by (simp add: transcribeUserSpeech_def)
  have n2: "transcribeUserSpeech st guildId userId = (st, None)"
    if "audioBuffers st (bufferKey_of guildId userId) = None"
    using that by (simp add: transcribeUserSpeech_def Let_def split: option.splits)
  have a: "transcribeUserSpeech st guildId userId =
        (st\<lparr>audioBuffers := (audioBuffers st)(bufferKey_of guildId userId := None)\<rparr>,
         if getSTT c
         then Some (concat (chunks buffer),
                 \<lparr>opt_format = ''pcm_s16le'', opt_sampleRate = 16000, opt_language = ''en''\<rparr>)
         else None)"
    if "ctx st = Some c" "audioBuffers st (bufferKey_of guildId userId) = Some buffer"
      "chunks buffer \<noteq> []" for st c buffer
    using that by (simp add: transcribeUserSpeech_def Let_def)
  have b: "transcribeUserSpeech st guildId userId = (st, None)"
    if "audioBuffers st (bufferKey_of guildId userId) = Some buffer" "chunks buffer = []"
    using that by (simp add: transcribeUserSpeech_def Let_def split: option.splits)
  have d: "snd (transcribeUserSpeech
            (foldl (\<lambda>s (t, chunk). on_vad_data s guildId userId t chunk)
               (start_buffer st guildId userId now now') tcs) guildId userId) =
        (if getSTT c
         then Some (concat (map snd tcs),
                 \<lparr>opt_format = ''pcm_s16le'', opt_sampleRate = 16000, opt_language = ''en''\<rparr>)
         else None)"
    if h: "ctx st = Some c" "tcs \<noteq> []"
  proof -
    let ?s = "start_buffer st guildId userId now now'"
    let ?e = "\<lparr>chunks = [], startTime = now, lastChunkTime = now', silenceCount = 0\<rparr>"
    have s0: "audioBuffers ?s (bufferKey_of guildId userId) = Some ?e" "ctx ?s = ctx st"
      by (simp_all add: start_buffer_def)
    from on_vad_data_run [OF s0(1), of tcs] obtain b' where
      b': "audioBuffers (foldl (\<lambda>s (t, chunk). on_vad_data s guildId userId t chunk) ?s tcs)
                 (bufferKey_of guildId userId) = Some b'"
        "chunks b' = map snd tcs"
        "ctx (foldl (\<lambda>s (t, chunk). on_vad_data s guildId userId t chunk) ?s tcs) = ctx ?s"
      by auto
    have ne: "chunks b' \<noteq> []" using b'(2) h(2) by simp
    have cx: "ctx (foldl (\<lambda>s (t, chunk). on_vad_data s guildId userId t chunk) ?s tcs) = Some c"
      using b'(3) s0(2) h(1) by simp
    show ?thesis unfolding a [OF cx b'(1) ne] by (simp add: b'(2))
  qed
  show ?thesis using n1 n2 a b d by blast
qed

theorem transcribeUserSpeech_drains_buffer_witness:
  "snd (transcribeUserSpeech
     (foldl (\<lambda>s (t, chunk). on_vad_data s ''g'' ''u'' t chunk)
        (start_buffer \<lparr>ctx = Some \<lparr>getSTT = True\<rparr>, audioBuffers = Map.empty\<rparr> ''g'' ''u'' 0 0)
        [(1, [1, 0]), (2, [2, 0])]) ''g'' ''u'') =
   Some ([1, 0, 2, 0],
         \<lparr>opt_format = ''pcm_s16le'', opt_sampleRate = 16000, opt_language = ''en''\<rparr>) \<and>
   snd (transcribeUserSpeech
     (foldl (\<lambda>s (t, chunk). on_vad_data s ''g'' ''u'' t chunk)
        (start_buffer \<lparr>ctx = Some \<lparr>getSTT = False\<rparr>, audioBuffers = Map.empty\<rparr> ''g'' ''u'' 0 0)
        [(1, [1, 0]), (2, [2, 0])]) ''g'' ''u'') = None \<and>
   transcribeUserSpeech
     (start_buffer \<lparr>ctx = Some \<lparr>getSTT = True\<rparr>, audioBuffers = Map.empty\<rparr> ''g'' ''u'' 0 0) ''g'' ''u'' =
     (start_buffer \<lparr>ctx = Some \<lparr>getSTT = True\<rparr>, audioBuffers = Map.empty\<rparr> ''g'' ''u'' 0 0, None) \<and>
   transcribeUserSpeech \<lparr>ctx = None, audioBuffers = Map.empty\<rparr> ''g'' ''u'' =
     (\<lparr>ctx = None, audioBuffers = Map.empty\<rparr>, None)"
proof -
  let ?A = "\<lparr>ctx = Some \<lparr>getSTT = True\<rparr>, audioBuffers = Map.empty\<rparr>"
  let ?F = "\<lparr>ctx = Some \<lparr>getSTT = False\<rparr>, audioBuffers = Map.empty\<rparr>"
  let ?N = "\<lparr>ctx = None, audioBuffers = Map.empty :: string \<rightharpoonup> AudioBufferState\<rparr>"
  let ?B = "start_buffer ?A ''g'' ''u'' 0 0"
  note w1 = transcribeUserSpeech_drains_buffer [where st = ?A and c = "\<lparr>getSTT = True\<rparr>"
      and guildId = "''g''" and userId = "''u''" and tcs = "[(1, [1, 0]), (2, [2, 0])]" and now = 0 and now' = 0]
  note w2 = transcribeUserSpeech_drains_buffer [where st = ?B and guildId = "''g''"
      and userId = "''u''"
      and buffer = "\<lparr>chunks = [], startTime = 0, lastChunkTime = 0, silenceCount = 0\<rparr>"]
  note w3 = transcribeUserSpeech_drains_buffer [where st = ?F and c = "\<lparr>getSTT = False\<rparr>"
      and guildId = "''g''" and userId = "''u''" and tcs = "[(1, [1, 0]), (2, [2, 0])]" and now = 0 and now' = 0]
  note w4 = transcribeUserSpeech_drains_buffer [where st = ?N and guildId = "''g''"
      and userId = "''u''"]
  have e: "audioBuffers ?B (bufferKey_of ''g'' ''u'') =
           Some \<lparr>chunks = [], startTime = 0, lastChunkTime = 0, silenceCount = 0\<rparr>"
    by (simp add: start_buffer_def)
  have "snd (transcribeUserSpeech
     (foldl (\<lambda>s (t, chunk). on_vad_data s ''g'' ''u'' t chunk) ?B
        [(1, [1, 0]), (2, [2, 0])]) ''g'' ''u'') =
   Some (concat (map snd [(1 :: nat, [1, 0 :: byte]), (2, [2, 0])]),
         \<lparr>opt_format = ''pcm_s16le'', opt_sampleRate = 16000, opt_language = ''en''\<rparr>)"
    using w1 by simp
  moreover have "snd (transcribeUserSpeech
     (foldl (\<lambda>s (t, chunk). on_vad_data s ''g'' ''u'' t chunk) (start_buffer ?F ''g'' ''u'' 0 0)
        [(1, [1, 0]), (2, [2, 0])]) ''g'' ''u'') = None"
    using w3 by simp
  moreover have "transcribeUserSpeech ?B ''g'' ''u'' = (?B, None)"
    using w2 e by simp
  moreover have "transcribeUserSpeech ?N ''g'' ''u'' = (?N, None)"
    using w4 by simp
  ultimately show ?thesis by simp
qed

end
